theory Spec2Isabelle
  imports Main "HOL-Library.Word"
begin

section \<open>Data model of the image database (imgfs.h as the sources use it)\<close>

text \<open>
  The header file imgfs.h is not among the sources; the field names, the constants and the
  integer widths below are the ones the C files under src/ use. A C string is modelled by
  the characters before its terminating NUL, a byte buffer by a list of bytes.
\<close>

type_synonym byte = "8 word"
type_synonym bytes = "byte list"

text \<open>
  The return codes of error.h that the modelled functions return. \<open>FAULT_OUT_OF_BOUNDS\<close>
  is not a code of error.h: it marks an access outside an array, where C defines no
  behaviour.
\<close>

datatype error_code =
    ERR_NONE
  | ERR_IO
  | ERR_RUNTIME
  | ERR_OUT_OF_MEMORY
  | ERR_NOT_ENOUGH_ARGUMENTS
  | ERR_INVALID_COMMAND
  | ERR_INVALID_ARGUMENT
  | ERR_RESOLUTIONS
  | ERR_INVALID_IMGID
  | ERR_IMGFS_FULL
  | ERR_IMAGE_NOT_FOUND
  | ERR_DUPLICATE_ID
  | ERR_IMGLIB
  | FAULT_OUT_OF_BOUNDS

abbreviation (input) MAX_IMG_ID :: nat where "MAX_IMG_ID \<equiv> 127"
abbreviation (input) EMPTY :: "16 word" where "EMPTY \<equiv> 0"
abbreviation (input) NON_EMPTY :: "16 word" where "NON_EMPTY \<equiv> 1"
abbreviation (input) THUMB_RES :: nat where "THUMB_RES \<equiv> 0"
abbreviation (input) SMALL_RES :: nat where "SMALL_RES \<equiv> 1"
abbreviation (input) ORIG_RES :: nat where "ORIG_RES \<equiv> 2"
abbreviation (input) NB_RES :: nat where "NB_RES \<equiv> 3"

text \<open>
  An array of \<open>NB_RES\<close> entries, one per resolution (thumbnail 0, small 1, original 2).
  \<open>get3\<close> and \<open>set3\<close> are only used at indices below \<open>NB_RES\<close>: the models check the
  index first wherever the source does not.
\<close>

datatype 'a arr3 = Arr3 'a 'a 'a

fun get3 :: "'a arr3 \<Rightarrow> nat \<Rightarrow> 'a" where
  "get3 (Arr3 a b c) r = (if r = 0 then a else if r = 1 then b else c)"

fun set3 :: "'a arr3 \<Rightarrow> nat \<Rightarrow> 'a \<Rightarrow> 'a arr3" where
  "set3 (Arr3 a b c) r v =
     (if r = 0 then Arr3 v b c else if r = 1 then Arr3 a v c else Arr3 a b v)"

record img_metadata =
  img_id :: string
  SHA :: bytes
  orig_res :: "32 word \<times> 32 word"
  size_md :: "32 word arr3"
  offset :: "64 word arr3"
  is_valid :: "16 word"

record imgfs_header =
  name :: string
  version :: "32 word"
  nb_files :: "32 word"
  max_files :: "32 word"
  resized_res :: "16 word list"

text \<open>What \<open>zero_init_ptr\<close> and \<open>zero_init_var\<close> leave in a metadata record.\<close>

definition zero_metadata :: img_metadata where
  "zero_metadata =
     \<lparr>img_id = [], SHA = replicate 32 0, orig_res = (0, 0),
      size_md = Arr3 0 0 0, offset = Arr3 0 0 0, is_valid = EMPTY\<rparr>"

section \<open>Name and content deduplication (image\_dedup.c)\<close>

text \<open>
  The inner loop of \<open>do_name_and_content_dedup\<close>: for each resolution, the offset and
  the size of the found copy are written into the target.
\<close>

definition copy_res :: "img_metadata \<Rightarrow> img_metadata \<Rightarrow> img_metadata" where
  "copy_res src tgt =
     fold (\<lambda>res t. t\<lparr>offset := set3 (offset t) res (get3 (offset src) res),
                      size_md := set3 (size_md t) res (get3 (size_md src) res)\<rparr>)
       [0..<NB_RES] tgt"

text \<open>
  The outer loop, from index \<open>i\<close> up to \<open>n = max_files\<close>. The target is the entry
  \<open>index\<close> of the table itself, so the table is the loop's state. A name match returns
  at once; a content match copies and goes on.
\<close>

function dedup_loop ::
  "img_metadata list \<Rightarrow> nat \<Rightarrow> nat \<Rightarrow> nat \<Rightarrow> error_code \<times> img_metadata list" where
  "dedup_loop md index n i =
     (if i < n then
        (if i \<noteq> index \<and> is_valid (md ! i) \<noteq> 0 then
           (if img_id (md ! i) = img_id (md ! index) then (ERR_DUPLICATE_ID, md)
            else if SHA (md ! i) = SHA (md ! index)
              then dedup_loop (md[index := copy_res (md ! i) (md ! index)]) index n (Suc i)
              else dedup_loop md index n (Suc i))
         else dedup_loop md index n (Suc i))
      else (ERR_NONE, md))"
  by pat_completeness auto
termination
  by (relation "measure (\<lambda>(md, index, n, i). n - i)") auto

declare dedup_loop.simps [simp del]

text \<open>
  \<open>do_name_and_content_dedup\<close> on the header and the table of the open database.
\<close>

definition do_name_and_content_dedup ::
  "imgfs_header \<Rightarrow> img_metadata list \<Rightarrow> 32 word \<Rightarrow> error_code \<times> img_metadata list" where
  "do_name_and_content_dedup hdr md index =
     (if index \<ge> max_files hdr then (ERR_IMAGE_NOT_FOUND, md)
      else if is_valid (md ! unat index) = 0 then (ERR_IMAGE_NOT_FOUND, md)
      else
        let md1 = md[unat index :=
                      (md ! unat index)\<lparr>offset := set3 (offset (md ! unat index)) ORIG_RES 0\<rparr>]
        in dedup_loop md1 (unat index) (unat (max_files hdr)) 0)"

section \<open>The database file and the C library calls on it\<close>

text \<open>
  The open file is its bytes and its position. Every call of the C library that the
  sources check for failure takes its outcome from \<open>io\<close>, the outcomes of the calls
  still to come (\<open>True\<close>: the call succeeds); when the list is used up every call
  succeeds. A failed call leaves the bytes as they are. Allocation is taken to succeed.
\<close>

record FILE =
  content :: bytes
  pos :: nat
  io :: "bool list"

definition io_next :: "FILE \<Rightarrow> bool \<times> FILE" where
  "io_next f = (case io f of [] \<Rightarrow> (True, f) | b # bs \<Rightarrow> (b, f\<lparr>io := bs\<rparr>))"

text \<open>\<open>fseek(f, off, SEEK_SET)\<close>; the result is \<open>True\<close> where C returns 0.\<close>

definition fseek_set :: "FILE \<Rightarrow> int \<Rightarrow> bool \<times> FILE" where
  "fseek_set f off =
     (case io_next f of (ok, f') \<Rightarrow>
        if ok \<and> 0 \<le> off then (True, f'\<lparr>pos := nat off\<rparr>) else (False, f'))"

text \<open>\<open>fseek(f, 0, SEEK_END)\<close>.\<close>

definition fseek_end :: "FILE \<Rightarrow> bool \<times> FILE" where
  "fseek_end f =
     (case io_next f of (ok, f') \<Rightarrow>
        if ok then (True, f'\<lparr>pos := length (content f')\<rparr>) else (False, f'))"

text \<open>\<open>ftell(f)\<close>: the position, or -1.\<close>

definition ftell :: "FILE \<Rightarrow> int \<times> FILE" where
  "ftell f = (case io_next f of (ok, f') \<Rightarrow> (if ok then int (pos f') else - 1, f'))"

text \<open>
  Writing \<open>buf\<close> at position \<open>p\<close>: a gap between the end of the file and \<open>p\<close> is
  filled with zero bytes.
\<close>

definition write_at :: "bytes \<Rightarrow> nat \<Rightarrow> bytes \<Rightarrow> bytes" where
  "write_at c p buf = take p c @ replicate (p - length c) 0 @ buf @ drop (p + length buf) c"

text \<open>
  \<open>fwrite(buf, size, 1, f)\<close> with \<open>size = length buf\<close>: the number of items written,
  1 or 0. With \<open>size = 0\<close> the C library writes nothing and returns 0.
\<close>

definition fwrite1 :: "bytes \<Rightarrow> FILE \<Rightarrow> nat \<times> FILE" where
  "fwrite1 buf f =
     (case io_next f of (ok, f') \<Rightarrow>
        if ok \<and> buf \<noteq> []
        then (1, f'\<lparr>content := write_at (content f') (pos f') buf,
                     pos := pos f' + length buf\<rparr>)
        else (0, f'))"

text \<open>
  \<open>fread(buf, size, 1, f)\<close>: the number of items read, 1 or 0, and the bytes read. The
  item is read only if \<open>size\<close> bytes are left; if fewer are left, the call reads them, which
  moves the position to the end of the file, and returns 0. With \<open>size = 0\<close> the result
  is 0.
\<close>

definition fread1 :: "nat \<Rightarrow> FILE \<Rightarrow> nat \<times> bytes \<times> FILE" where
  "fread1 n f =
     (case io_next f of (ok, f') \<Rightarrow>
        if ok \<and> 0 < n \<and> pos f' + n \<le> length (content f')
        then (1, take n (drop (pos f') (content f')), f'\<lparr>pos := pos f' + n\<rparr>)
        else if ok \<and> 0 < n
        then (0, [], f'\<lparr>pos := max (pos f') (length (content f'))\<rparr>)
        else (0, [], f'))"

text \<open>
  What the sources take from outside: the digest (OpenSSL), the image library, the
  function \<open>get_resolution\<close> of image\_content.c (declared in image\_content.h, its
  definition is not among the sources), and the sizes and object representations of the
  two structs of imgfs.h. \<open>get_resolution\<close> gives the return code, the height and the
  width. \<open>vips_resize\<close> stands for the three calls \<open>vips_jpegload_buffer\<close>,
  \<open>vips_thumbnail_image\<close> and \<open>vips_jpegsave_buffer\<close>: \<open>None\<close> when one of them fails.
\<close>

record platform =
  SHA256 :: "bytes \<Rightarrow> bytes"
  get_resolution :: "bytes \<Rightarrow> error_code \<times> 32 word \<times> 32 word"
  vips_resize :: "bytes \<Rightarrow> 16 word \<Rightarrow> bytes option"
  sizeof_header :: nat
  sizeof_metadata :: nat
  header_bytes :: "imgfs_header \<Rightarrow> bytes"
  metadata_bytes :: "img_metadata \<Rightarrow> bytes"

text \<open>The \<open>n\<close> bytes that \<open>fwrite(&x, sizeof x, 1, f)\<close> writes for a struct.\<close>

definition obj_bytes :: "nat \<Rightarrow> bytes \<Rightarrow> bytes" where
  "obj_bytes n repr = take n (repr @ replicate n 0)"

record imgfs_file =
  cfile :: FILE
  header :: imgfs_header
  metadata :: "img_metadata list"

section \<open>Insertion (imgfs\_insert.c)\<close>

text \<open>The search for the first free entry; -1 when there is none.\<close>

function free_loop :: "img_metadata list \<Rightarrow> nat \<Rightarrow> nat \<Rightarrow> int" where
  "free_loop md n i =
     (if i < n then (if is_valid (md ! i) = EMPTY then int i else free_loop md n (Suc i))
      else - 1)"
  by pat_completeness auto
termination
  by (relation "measure (\<lambda>(md, n, i). n - i)") auto

declare free_loop.simps [simp del]

text \<open>
  Lines 99 to 116 of \<open>do_insert\<close>: the image is written at the end of the file when
  deduplication left the offset of the original at 0.
\<close>

definition write_image :: "bytes \<Rightarrow> nat \<Rightarrow> imgfs_file \<Rightarrow> error_code \<times> imgfs_file" where
  "write_image image_buffer idx s =
     (if get3 (offset (metadata s ! idx)) ORIG_RES = 0 then
        (case fseek_end (cfile s) of (ok, f1) \<Rightarrow>
           if \<not> ok then (ERR_IO, s\<lparr>cfile := f1\<rparr>)
           else
             (case ftell f1 of (off, f2) \<Rightarrow>
                if off = - 1 then (ERR_IO, s\<lparr>cfile := f2\<rparr>)
                else
                  let m1 = (metadata s ! idx)
                             \<lparr>offset := set3 (offset (metadata s ! idx)) ORIG_RES (word_of_int off)\<rparr>
                  in (case fwrite1 image_buffer f2 of (written, f3) \<Rightarrow>
                        if written \<noteq> 1
                        then (ERR_IO, s\<lparr>cfile := f3, metadata := (metadata s)[idx := m1]\<rparr>)
                        else (ERR_NONE,
                              s\<lparr>cfile := f3,
                                metadata := (metadata s)[idx :=
                                  m1\<lparr>size_md := set3 (size_md m1) ORIG_RES
                                                   (word_of_nat (length image_buffer))\<rparr>]\<rparr>))))
      else (ERR_NONE, s))"

text \<open>
  Lines 118 to 137 of \<open>do_insert\<close>: the version is incremented, then the header and the
  entry \<open>idx\<close> are written to the file.
\<close>

definition write_header_and_metadata ::
  "platform \<Rightarrow> nat \<Rightarrow> imgfs_file \<Rightarrow> error_code \<times> imgfs_file" where
  "write_header_and_metadata P idx s =
     (let s1 = s\<lparr>header := (header s)\<lparr>version := version (header s) + 1\<rparr>\<rparr> in
      case fseek_set (cfile s1) 0 of (ok1, f1) \<Rightarrow>
        if \<not> ok1 then (ERR_IO, s1\<lparr>cfile := f1\<rparr>)
        else
          (case fwrite1 (obj_bytes (sizeof_header P) (header_bytes P (header s1))) f1 of
             (w1, f2) \<Rightarrow>
               if w1 \<noteq> 1 then (ERR_IO, s1\<lparr>cfile := f2\<rparr>)
               else
                 (case fseek_set f2 (int (sizeof_header P + idx * sizeof_metadata P)) of
                    (ok2, f3) \<Rightarrow>
                      if \<not> ok2 then (ERR_IO, s1\<lparr>cfile := f3\<rparr>)
                      else
                        (case fwrite1 (obj_bytes (sizeof_metadata P)
                                         (metadata_bytes P (metadata s1 ! idx))) f3 of
                           (w2, f4) \<Rightarrow>
                             if w2 \<noteq> 1 then (ERR_IO, s1\<lparr>cfile := f4\<rparr>)
                             else (ERR_NONE, s1\<lparr>cfile := f4\<rparr>)))))"

text \<open>
  \<open>do_insert\<close>. The size of the image is the length of the buffer. When the search finds
  no free entry the source converts -1 to an index and writes outside the table.
\<close>

definition do_insert ::
  "platform \<Rightarrow> bytes \<Rightarrow> string \<Rightarrow> imgfs_file \<Rightarrow> error_code \<times> imgfs_file" where
  "do_insert P image_buffer imgid s =
     (if length image_buffer = 0 then (ERR_INVALID_ARGUMENT, s)
      else if nb_files (header s) \<ge> max_files (header s) then (ERR_IMGFS_FULL, s)
      else
        let free_index = free_loop (metadata s) (unat (max_files (header s))) 0 in
        if free_index = - 1 then (FAULT_OUT_OF_BOUNDS, s)
        else
          let index = (word_of_int free_index :: 32 word);
              idx = unat index;
              md0 = zero_metadata\<lparr>SHA := SHA256 P image_buffer,
                                   img_id := take MAX_IMG_ID imgid,
                                   is_valid := NON_EMPTY\<rparr>;
              s1 = s\<lparr>metadata := (metadata s)[idx := md0],
                      header := (header s)\<lparr>nb_files := nb_files (header s) + 1\<rparr>\<rparr>
          in
          (case get_resolution P image_buffer of (err, height, width) \<Rightarrow>
             if err \<noteq> ERR_NONE then (err, s1)
             else
               let s2 = s1\<lparr>metadata := (metadata s1)[idx :=
                               (metadata s1 ! idx)\<lparr>orig_res := (width, height)\<rparr>]\<rparr>
               in
               (case do_name_and_content_dedup (header s2) (metadata s2) index of
                  (err, md') \<Rightarrow>
                    if err \<noteq> ERR_NONE then
                      (if err = ERR_DUPLICATE_ID
                       then (err, s2\<lparr>metadata := md'[idx := zero_metadata],
                                     header := (header s2)\<lparr>nb_files := nb_files (header s2) - 1\<rparr>\<rparr>)
                       else (err, s2\<lparr>metadata := md'\<rparr>))
                    else
                      (case write_image image_buffer idx (s2\<lparr>metadata := md'\<rparr>) of
                         (err, s3) \<Rightarrow>
                           if err \<noteq> ERR_NONE then (err, s3)
                           else write_header_and_metadata P idx s3))))"

section \<open>Deletion (imgfs\_delete.c)\<close>

text \<open>
  The search of \<open>do_delete\<close> for the first valid entry with the given identifier; -1 when
  there is none. The entry counts as valid when \<open>is_valid\<close> is not 0.
\<close>

function delete_loop :: "img_metadata list \<Rightarrow> nat \<Rightarrow> string \<Rightarrow> nat \<Rightarrow> int" where
  "delete_loop md n imgID i =
     (if i < n then
        (if is_valid (md ! i) \<noteq> 0 \<and> img_id (md ! i) = imgID then int i
         else delete_loop md n imgID (Suc i))
      else - 1)"
  by pat_completeness auto
termination
  by (relation "measure (\<lambda>(md, n, imgID, i). n - i)") auto

declare delete_loop.simps [simp del]

text \<open>
  \<open>do_delete\<close>: at the entry found, the flag is cleared and the entry written (the result
  of that \<open>fseek\<close> is not checked); then the header is updated and written.
\<close>

definition do_delete :: "platform \<Rightarrow> string \<Rightarrow> imgfs_file \<Rightarrow> error_code \<times> imgfs_file" where
  "do_delete P imgID s =
     (let found = delete_loop (metadata s) (unat (max_files (header s))) imgID 0 in
      if found = - 1 then (ERR_IMAGE_NOT_FOUND, s)
      else
        let i = nat found;
            s1 = s\<lparr>metadata := (metadata s)[i := (metadata s ! i)\<lparr>is_valid := EMPTY\<rparr>]\<rparr>
        in
        (case fseek_set (cfile s1) (int (sizeof_header P + sizeof_metadata P * i)) of
           (ok1, f1) \<Rightarrow>
             (case fwrite1 (obj_bytes (sizeof_metadata P)
                              (metadata_bytes P (metadata s1 ! i))) f1 of
                (w1, f2) \<Rightarrow>
                  if w1 \<noteq> 1 then (ERR_IO, s1\<lparr>cfile := f2\<rparr>)
                  else
                    let s2 = s1\<lparr>header := (header s1)
                                   \<lparr>nb_files := nb_files (header s1) - 1,
                                    version := version (header s1) + 1\<rparr>\<rparr>
                    in
                    (case fseek_set f2 0 of
                       (ok2, f3) \<Rightarrow>
                         (case fwrite1 (obj_bytes (sizeof_header P)
                                          (header_bytes P (header s2))) f3 of
                            (w2, f4) \<Rightarrow>
                              if w2 \<noteq> 1 then (ERR_IO, s2\<lparr>cfile := f4\<rparr>)
                              else (ERR_NONE, s2\<lparr>cfile := f4\<rparr>))))))"

section \<open>Lazy resizing (image\_content.c)\<close>

text \<open>
  \<open>lazily_resize\<close>. The resolution is the C \<open>int\<close>; \<open>position\<close> is the index of the image
  in the table. The width is read from \<open>resized_res[2 * resolution]\<close>.
\<close>

definition lazily_resize ::
  "platform \<Rightarrow> int \<Rightarrow> imgfs_file \<Rightarrow> nat \<Rightarrow> error_code \<times> imgfs_file" where
  "lazily_resize P resolution s position =
     (if resolution < int THUMB_RES \<or> resolution > int ORIG_RES then (ERR_RESOLUTIONS, s)
      else if position \<ge> unat (nb_files (header s)) then (ERR_INVALID_IMGID, s)
      else if get3 (size_md (metadata s ! position)) (nat resolution) \<noteq> 0 then (ERR_NONE, s)
      else if resolution = int ORIG_RES then (ERR_NONE, s)
      else
        (case fseek_set (cfile s) (sint (get3 (offset (metadata s ! position)) ORIG_RES)) of
           (ok1, f1) \<Rightarrow>
             if \<not> ok1 then (ERR_IO, s\<lparr>cfile := f1\<rparr>)
             else
               (case fread1 (unat (get3 (size_md (metadata s ! position)) ORIG_RES)) f1 of
                  (read_items, original_buffer, f2) \<Rightarrow>
                    if read_items \<noteq> 1 then (ERR_IO, s\<lparr>cfile := f2\<rparr>)
                    else
                      (case vips_resize P original_buffer
                              (resized_res (header s) ! (2 * nat resolution)) of
                         None \<Rightarrow> (ERR_IMGLIB, s\<lparr>cfile := f2\<rparr>)
                       | Some new_buffer \<Rightarrow>
                           (case fseek_end f2 of (ok2, f3) \<Rightarrow>
                              if \<not> ok2 then (ERR_IO, s\<lparr>cfile := f3\<rparr>)
                              else
                                (case ftell f3 of (off, f4) \<Rightarrow>
                                   let new_offset = (word_of_int off :: 64 word) in
                                   if new_offset = - 1 then (ERR_IO, s\<lparr>cfile := f4\<rparr>)
                                   else
                                     (case fwrite1 new_buffer f4 of (w1, f5) \<Rightarrow>
                                        if w1 \<noteq> 1 then (ERR_IO, s\<lparr>cfile := f5\<rparr>)
                                        else
                                          let m = metadata s ! position;
                                              m' = m\<lparr>offset := set3 (offset m) (nat resolution) new_offset,
                                                     size_md := set3 (size_md m) (nat resolution)
                                                                  (word_of_nat (length new_buffer))\<rparr>;
                                              s1 = s\<lparr>metadata := (metadata s)[position := m']\<rparr>
                                          in
                                          (case fseek_set f5
                                                  (int (sizeof_header P + position * sizeof_metadata P)) of
                                             (ok3, f6) \<Rightarrow>
                                               if \<not> ok3 then (ERR_IO, s1\<lparr>cfile := f6\<rparr>)
                                               else
                                                 (case fwrite1 (obj_bytes (sizeof_metadata P)
                                                                  (metadata_bytes P m')) f6 of
                                                    (w2, f7) \<Rightarrow>
                                                      if w2 \<noteq> 1 then (ERR_IO, s1\<lparr>cfile := f7\<rparr>)
                                                      else (ERR_NONE, s1\<lparr>cfile := f7\<rparr>))))))))))"

section \<open>Reading (imgfs\_read.c)\<close>

text \<open>
  \<open>find_pos_by_id\<close>: the first entry whose flag equals \<open>NON_EMPTY\<close> and whose identifier
  is the given one; -1 when there is none.
\<close>

function find_pos_loop :: "img_metadata list \<Rightarrow> nat \<Rightarrow> string \<Rightarrow> nat \<Rightarrow> int" where
  "find_pos_loop md n imgid i =
     (if i < n then
        (if is_valid (md ! i) = NON_EMPTY \<and> img_id (md ! i) = imgid then int i
         else find_pos_loop md n imgid (Suc i))
      else - 1)"
  by pat_completeness auto
termination
  by (relation "measure (\<lambda>(md, n, imgid, i). n - i)") auto

declare find_pos_loop.simps [simp del]

definition find_pos_by_id :: "imgfs_file \<Rightarrow> string \<Rightarrow> int" where
  "find_pos_by_id s imgid = find_pos_loop (metadata s) (unat (max_files (header s))) imgid 0"

text \<open>
  \<open>do_read\<close>: the return code, the buffer and the database. The source indexes the arrays
  of the entry with \<open>resolution\<close> before any check of its range; callers pass 0, 1 or 2.
\<close>

definition do_read ::
  "platform \<Rightarrow> string \<Rightarrow> int \<Rightarrow> imgfs_file \<Rightarrow> error_code \<times> bytes \<times> imgfs_file" where
  "do_read P imgid resolution s =
     (let p = find_pos_by_id s imgid in
      if p = - 1 then (ERR_IMAGE_NOT_FOUND, [], s)
      else if resolution < 0 \<or> resolution \<ge> int NB_RES then (FAULT_OUT_OF_BOUNDS, [], s)
      else
        let position = nat p;
            r = nat resolution
        in
        (case (if resolution \<noteq> int ORIG_RES \<and>
                  (get3 (offset (metadata s ! position)) r = 0 \<or>
                   get3 (size_md (metadata s ! position)) r = 0)
               then lazily_resize P resolution s position
               else (ERR_NONE, s)) of
           (err, s1) \<Rightarrow>
             if err \<noteq> ERR_NONE then (err, [], s1)
             else
               let image_size = get3 (size_md (metadata s1 ! position)) r in
               (case fseek_set (cfile s1) (sint (get3 (offset (metadata s1 ! position)) r)) of
                  (ok, f1) \<Rightarrow>
                    if \<not> ok then (ERR_IO, [], s1\<lparr>cfile := f1\<rparr>)
                    else
                      (case fread1 (unat image_size) f1 of
                         (read_items, image_buffer, f2) \<Rightarrow>
                           if read_items \<noteq> 1 then (ERR_IO, [], s1\<lparr>cfile := f2\<rparr>)
                           else (ERR_NONE, image_buffer, s1\<lparr>cfile := f2\<rparr>)))))"

section \<open>HTTP messages (http\_prot.c)\<close>

text \<open>
  The header http\_prot.h is not among the sources. The request buffer is read as a C
  string, \<open>stream\<close>: its characters before the first NUL. A \<open>struct http_string\<close> is a
  pointer into the buffer and a length: \<open>val\<close> is modelled by the characters from the
  pointer to the end of \<open>stream\<close>, so that a comparison which reads on past \<open>len\<close> reads
  what the C code reads. The fields \<open>method\<close> and \<open>value\<close> of the source are
  \<open>meth\<close> and \<open>hvalue\<close> here, and \<open>key\<close> is \<open>hkey\<close>; \<open>num_headers\<close> is the length of
  \<open>headers\<close>.
\<close>

record http_string =
  val :: string
  len :: nat

record http_header =
  hkey :: http_string
  hvalue :: http_string

record http_message =
  meth :: http_string
  uri :: http_string
  headers :: "http_header list"
  body :: http_string

definition HTTP_LINE_DELIM :: string where
  "HTTP_LINE_DELIM = [CHR 0x0D, CHR 0x0A]"

definition HTTP_HDR_END_DELIM :: string where
  "HTTP_HDR_END_DELIM = HTTP_LINE_DELIM @ HTTP_LINE_DELIM"

definition HTTP_HDR_KV_DELIM :: string where
  "HTTP_HDR_KV_DELIM = '': ''"

text \<open>
  Modelled from the spec: the constant \<open>MAX_HEADERS\<close> of http\_prot.h, which is not among
  the sources (``implementation-defined; legacy: 32'').
\<close>

definition MAX_HEADERS :: nat where
  "MAX_HEADERS = 32"

text \<open>
  \<open>strncmp(a, b, n) == 0\<close> on two C strings: the first \<open>n\<close> characters agree, or both
  strings end before and agree.
\<close>

definition strncmp_eq :: "string \<Rightarrow> string \<Rightarrow> nat \<Rightarrow> bool" where
  "strncmp_eq a b n \<longleftrightarrow> take n a = take n b"

text \<open>\<open>strstr\<close>: the index of the first occurrence of \<open>d\<close> in \<open>s\<close>.\<close>

fun strstr :: "string \<Rightarrow> string \<Rightarrow> nat option" where
  "strstr [] d = (if d = [] then Some 0 else None)"
| "strstr (c # cs) d =
     (if take (length d) (c # cs) = d then Some 0 else map_option Suc (strstr cs d))"

text \<open>
  Pointers into the request buffer \<open>stream\<close> are offsets from its start; \<open>strstr\<close> from the
  pointer \<open>p\<close> gives the pointer to the occurrence.
\<close>

definition strstr_at :: "string \<Rightarrow> nat \<Rightarrow> string \<Rightarrow> nat option" where
  "strstr_at stream p d = map_option (\<lambda>i. p + i) (strstr (drop p stream) d)"

definition http_match_uri :: "http_message \<Rightarrow> string \<Rightarrow> bool" where
  "http_match_uri message target_uri \<longleftrightarrow>
     strncmp_eq (val (uri message)) target_uri (length target_uri)"

definition http_match_verb :: "http_string \<Rightarrow> string \<Rightarrow> bool" where
  "http_match_verb m verb \<longleftrightarrow> len m = length verb \<and> strncmp_eq (val m) verb (len m)"

text \<open>
  The characters of an \<open>http_string\<close>: the \<open>len\<close> characters at \<open>val\<close>, which is what
  \<open>handle_http_message\<close> prints of the URI with \<open>%.*s\<close>.
\<close>

definition chars_of :: "http_string \<Rightarrow> string" where
  "chars_of t = take (len t) (val t)"

text \<open>
  \<open>get_next_token\<close>: \<open>None\<close> for \<open>NULL\<close>, else the pointer behind the delimiter and the
  token written to \<open>output\<close>.
\<close>

definition get_next_token :: "string \<Rightarrow> nat \<Rightarrow> string \<Rightarrow> (nat \<times> http_string) option" where
  "get_next_token stream message delimiter =
     (case strstr_at stream message delimiter of
        None \<Rightarrow> None
      | Some e \<Rightarrow> Some (e + length delimiter, \<lparr>val = drop message stream, len = e - message\<rparr>))"

text \<open>
  The loop of \<open>http_parse_headers\<close>, from the pointer \<open>current\<close> with the headers stored
  so far: the pointer to the body (\<open>None\<close> for \<open>NULL\<close>) and the headers that
  \<open>num_headers\<close> counts when the function returns.
\<close>

function parse_headers_loop ::
  "string \<Rightarrow> nat \<Rightarrow> http_header list \<Rightarrow> nat option \<times> http_header list" where
  "parse_headers_loop stream current hs =
     (if current < length stream \<and>
         \<not> strncmp_eq (drop current stream) HTTP_HDR_END_DELIM (length HTTP_HDR_END_DELIM)
      then
        (if length hs \<ge> MAX_HEADERS then (None, hs)
         else
           (case strstr_at stream current HTTP_LINE_DELIM of
              None \<Rightarrow> (None, hs)
            | Some line_end \<Rightarrow>
                if line_end = current then (Some (current + length HTTP_LINE_DELIM), hs)
                else
                  (case get_next_token stream current HTTP_HDR_KV_DELIM of
                     None \<Rightarrow> (None, hs)
                   | Some (c1, k) \<Rightarrow>
                       if c1 \<ge> line_end then (None, hs)
                       else
                         (case get_next_token stream c1 HTTP_LINE_DELIM of
                            None \<Rightarrow> (None, hs)
                          | Some (c2, v) \<Rightarrow>
                              if c2 > line_end + length HTTP_LINE_DELIM then (None, hs)
                              else parse_headers_loop stream
                                     (line_end + length HTTP_LINE_DELIM)
                                     (hs @ [\<lparr>hkey = k, hvalue = v\<rparr>])))))
      else (Some (current + length HTTP_HDR_END_DELIM), hs))"
  by pat_completeness auto
termination
  by (relation "measure (\<lambda>(stream, current, hs). length stream - current)")
     (auto simp: strstr_at_def)

declare parse_headers_loop.simps [simp del]

text \<open>
  \<open>atoi\<close>: white space, an optional sign, then decimal digits up to the first other
  character. The result is the number read; for a number outside the range of \<open>int\<close> C
  leaves the behaviour undefined, and the model keeps the number.
\<close>

definition isspace :: "char \<Rightarrow> bool" where
  "isspace c \<longleftrightarrow> c \<in> set [CHR '' '', CHR 0x09, CHR 0x0A, CHR 0x0B, CHR 0x0C, CHR 0x0D]"

definition isdigit :: "char \<Rightarrow> bool" where
  "isdigit c \<longleftrightarrow> 48 \<le> (of_char c :: nat) \<and> (of_char c :: nat) \<le> 57"

fun atoi_digits :: "string \<Rightarrow> int \<Rightarrow> int" where
  "atoi_digits [] acc = acc"
| "atoi_digits (c # cs) acc =
     (if isdigit c then atoi_digits cs (10 * acc + (int (of_char c) - 48)) else acc)"

definition atoi :: "string \<Rightarrow> int" where
  "atoi s =
     (case dropWhile isspace s of
        [] \<Rightarrow> 0
      | c # cs \<Rightarrow>
          if c = CHR ''-'' then - atoi_digits cs 0
          else if c = CHR ''+'' then atoi_digits cs 0
          else atoi_digits (c # cs) 0)"

text \<open>
  The search for the content length in \<open>http_parse_message\<close>: the value of the first
  header whose key passes the comparison, else 0.
\<close>

fun find_content_len :: "http_header list \<Rightarrow> int" where
  "find_content_len [] = 0"
| "find_content_len (h # hs) =
     (if strncmp_eq (val (hkey h)) ''Content-Length'' (len (hkey h))
      then atoi (val (hvalue h))
      else find_content_len hs)"

text \<open>
  \<open>http_parse_message\<close>: the result (1 parsed, 0 incomplete), the message \<open>out\<close> and
  \<open>*content_len\<close>, both as the call leaves them. The comparison with \<open>bytes_received\<close>
  is the one of \<open>size_t\<close>, 64 bits wide.
\<close>

definition http_parse_message ::
  "string \<Rightarrow> nat \<Rightarrow> http_message \<Rightarrow> int \<Rightarrow> int \<times> http_message \<times> int" where
  "http_parse_message stream bytes_received out content_len =
     (case strstr_at stream 0 HTTP_HDR_END_DELIM of
        None \<Rightarrow> (0, out, content_len)
      | Some headers_end \<Rightarrow>
          (case get_next_token stream 0 '' '' of
             None \<Rightarrow> (0, out, content_len)
           | Some (c1, m) \<Rightarrow>
               let out1 = out\<lparr>meth := m\<rparr> in
               if len m = 0 then (0, out1, content_len)
               else
                 (case get_next_token stream c1 '' '' of
                    None \<Rightarrow> (0, out1, content_len)
                  | Some (c2, u) \<Rightarrow>
                      let out2 = out1\<lparr>uri := u\<rparr> in
                      if len u = 0 then (0, out2, content_len)
                      else
                        (case get_next_token stream c2 HTTP_LINE_DELIM of
                           None \<Rightarrow> (0, out2, content_len)
                         | Some (c3, version_token) \<Rightarrow>
                             (case parse_headers_loop stream c3 [] of
                                (None, hs) \<Rightarrow> (0, out2\<lparr>headers := hs\<rparr>, content_len)
                              | (Some current, hs) \<Rightarrow>
                                  let out3 = out2\<lparr>headers := hs\<rparr>;
                                      cl = find_content_len hs;
                                      headers_length = current
                                  in
                                  if (word_of_nat bytes_received :: 64 word)
                                       < word_of_nat headers_length + word_of_int cl
                                  then (0, out3, cl)
                                  else if cl > 0
                                  then (1, out3\<lparr>body := \<lparr>val = drop current stream,
                                                          len = nat cl\<rparr>\<rparr>, cl)
                                  else (1, out3, cl))))))"

section \<open>The request router (imgfs\_server\_service.c)\<close>

text \<open>
  What \<open>handle_http_message\<close> does with a message: which of its handlers it calls, or
  the error it replies with.
\<close>

datatype dispatch =
    Serve_base_file
  | Handle_list_call
  | Handle_read_call
  | Handle_delete_call
  | Handle_insert_call
  | Reply_error_msg error_code

definition URI_ROOT :: string where
  "URI_ROOT = ''/imgfs''"

definition handle_http_message :: "http_message \<Rightarrow> dispatch" where
  "handle_http_message msg =
     (if http_match_verb (uri msg) ''/'' \<or> http_match_verb (uri msg) ''/index.html''
      then Serve_base_file
      else if http_match_uri msg (URI_ROOT @ ''/list'') then Handle_list_call
      else if http_match_uri msg (URI_ROOT @ ''/read'') then Handle_read_call
      else if http_match_uri msg (URI_ROOT @ ''/delete'') then Handle_delete_call
      else if http_match_uri msg (URI_ROOT @ ''/insert'') \<and> http_match_verb (meth msg) ''POST''
      then Handle_insert_call
      else Reply_error_msg ERR_INVALID_COMMAND)"

section \<open>Well-formed databases\<close>

text \<open>
  The entry that a successful \<open>do_insert\<close> leaves in the table, with the given offsets
  and sizes.
\<close>

definition new_entry ::
  "platform \<Rightarrow> bytes \<Rightarrow> string \<Rightarrow> 32 word \<Rightarrow> 32 word \<Rightarrow> 64 word arr3 \<Rightarrow> 32 word arr3
     \<Rightarrow> img_metadata" where
  "new_entry P b i w h ofs szs =
     \<lparr>img_id = take MAX_IMG_ID i, SHA = SHA256 P b, orig_res = (w, h), size_md = szs,
      offset = ofs, is_valid = NON_EMPTY\<rparr>"

text \<open>
  The size of the header and the table in the file; behind it the images are stored.
\<close>

definition prefix_size :: "platform \<Rightarrow> imgfs_file \<Rightarrow> nat" where
  "prefix_size P s = sizeof_header P + unat (max_files (header s)) * sizeof_metadata P"

text \<open>
  \<open>db_ok\<close>: the table has \<open>max_files\<close> entries, as \<open>do_open\<close> and \<open>do_create\<close> allocate
  it, no call on the file fails, the two structs have a size, and the file holds the
  header and the table (invariant 1 of the data model).
\<close>

definition db_ok :: "platform \<Rightarrow> imgfs_file \<Rightarrow> bool" where
  "db_ok P s \<longleftrightarrow>
     length (metadata s) = unat (max_files (header s)) \<and> io (cfile s) = [] \<and>
     0 < sizeof_header P \<and> 0 < sizeof_metadata P \<and>
     prefix_size P s \<le> length (content (cfile s))"

text \<open>
  \<open>stores P s j b\<close>: the original of entry \<open>j\<close> lies behind the table, inside the file,
  and is the byte string \<open>b\<close>.
\<close>

definition stores :: "platform \<Rightarrow> imgfs_file \<Rightarrow> nat \<Rightarrow> bytes \<Rightarrow> bool" where
  "stores P s j b \<longleftrightarrow>
     prefix_size P s \<le> unat (get3 (offset (metadata s ! j)) ORIG_RES) \<and>
     unat (get3 (size_md (metadata s ! j)) ORIG_RES) = length b \<and>
     unat (get3 (offset (metadata s ! j)) ORIG_RES) + length b \<le> length (content (cfile s)) \<and>
     take (length b) (drop (unat (get3 (offset (metadata s ! j)) ORIG_RES)) (content (cfile s))) = b"

text \<open>
  \<open>dedup_ok P s b\<close>: every valid entry whose digest is the digest of \<open>b\<close> stores \<open>b\<close>.
  This is what the digest stands for in a database built by \<open>do_insert\<close>, as long as no
  two images in it share a digest.
\<close>

definition dedup_ok :: "platform \<Rightarrow> imgfs_file \<Rightarrow> bytes \<Rightarrow> bool" where
  "dedup_ok P s b \<longleftrightarrow>
     (\<forall>j. j < length (metadata s) \<and> is_valid (metadata s ! j) \<noteq> 0 \<and>
          SHA (metadata s ! j) = SHA256 P b \<longrightarrow> stores P s j b)"

section \<open>Example data\<close>

text \<open>
  A valid entry with the given identifier, digest, and offset and size of the original;
  a header with the given version, number of files and capacity.
\<close>

definition ex_entry :: "string \<Rightarrow> bytes \<Rightarrow> 64 word \<Rightarrow> 32 word \<Rightarrow> img_metadata" where
  "ex_entry i d off sz =
     \<lparr>img_id = i, SHA = d, orig_res = (1, 1), size_md = Arr3 0 0 sz,
      offset = Arr3 0 0 off, is_valid = NON_EMPTY\<rparr>"

definition ex_header :: "32 word \<Rightarrow> 32 word \<Rightarrow> 32 word \<Rightarrow> imgfs_header" where
  "ex_header v n m =
     \<lparr>name = ''EPFL ImgFS 2024'', version = v, nb_files = n, max_files = m,
      resized_res = [64, 64, 256, 256]\<rparr>"

text \<open>
  A small platform: the digest is the buffer itself, an image is a buffer that starts with
  the JPEG marker FF D8, a header takes two bytes of the file and an entry one.
\<close>

definition ex_platform :: platform where
  "ex_platform =
     \<lparr>SHA256 = (\<lambda>b. b),
      get_resolution = (\<lambda>b. if take 2 b = [0xFF, 0xD8] then (ERR_NONE, 1, 1)
                            else (ERR_IMGLIB, 0, 0)),
      vips_resize = (\<lambda>b w. Some [0xFF, 0xD8, ucast w]),
      sizeof_header = 2,
      sizeof_metadata = 1,
      header_bytes = (\<lambda>h. [ucast (version h), ucast (nb_files h)]),
      metadata_bytes = (\<lambda>m. [ucast (is_valid m)])\<rparr>"

text \<open>An open file with the given bytes, at position 0, on which no call fails.\<close>

definition ex_file :: "bytes \<Rightarrow> FILE" where
  "ex_file c = \<lparr>content = c, pos = 0, io = []\<rparr>"

text \<open>
  An open database with the given version, number of files, table and file bytes; the
  capacity is the length of the table.
\<close>

definition ex_db :: "32 word \<Rightarrow> 32 word \<Rightarrow> img_metadata list \<Rightarrow> bytes \<Rightarrow> imgfs_file" where
  "ex_db v n md c =
     \<lparr>cfile = ex_file c, header = ex_header v n (word_of_nat (length md)), metadata = md\<rparr>"

text \<open>
  \<open>first_free s k\<close>: the entry \<open>k\<close> is the first free entry of the table, the one the
  search of \<open>do_insert\<close> stops at.
\<close>

definition first_free :: "imgfs_file \<Rightarrow> nat \<Rightarrow> bool" where
  "first_free s k \<longleftrightarrow>
     k < unat (max_files (header s)) \<and> k < length (metadata s) \<and>
     is_valid (metadata s ! k) = EMPTY \<and> (\<forall>j. j < k \<longrightarrow> is_valid (metadata s ! j) \<noteq> EMPTY)"

text \<open>A database of two entries: the image \<open>a\<close> and a free entry.\<close>

definition ex_db_one :: imgfs_file where
  "ex_db_one = ex_db 5 1 [ex_entry ''a'' [0xFF, 0xD8] 4 2, zero_metadata] [0, 0, 0, 0, 0xFF, 0xD8]"

text \<open>
  A request with the given target and one header line, and a message with nothing in it.
\<close>

definition ex_request :: "string \<Rightarrow> string \<Rightarrow> string" where
  "ex_request target header_line =
     ''GET '' @ target @ '' HTTP/1.1'' @ HTTP_LINE_DELIM @ header_line @ HTTP_LINE_DELIM
       @ HTTP_LINE_DELIM"

definition empty_message :: http_message where
  "empty_message =
     \<lparr>meth = \<lparr>val = [], len = 0\<rparr>, uri = \<lparr>val = [], len = 0\<rparr>, headers = [],
      body = \<lparr>val = [], len = 0\<rparr>\<rparr>"

text \<open>
  The database after inserting \<open>a\<close> and \<open>b\<close> into an empty table of two entries and
  deleting \<open>a\<close>: the image \<open>b\<close> stands at index 1 and \<open>nb_files\<close> is 1.
\<close>

definition ex_db_hole :: imgfs_file where
  "ex_db_hole =
     snd (do_delete ex_platform ''a''
       (snd (do_insert ex_platform [0xFF, 0xD8, 2] ''b''
         (snd (do_insert ex_platform [0xFF, 0xD8, 1] ''a''
           (ex_db 0 0 [zero_metadata, zero_metadata] [0, 0, 0, 0]))))))"




section \<open>Properties\<close>

lemma copy_res_eq:
  "copy_res src tgt = tgt\<lparr>offset := offset src, size_md := size_md src\<rparr>"
proof -
  obtain a b c where o: "offset src = Arr3 a b c" by (cases "offset src")
  obtain d e f where s: "size_md src = Arr3 d e f" by (cases "size_md src")
  obtain a' b' c' where o': "offset tgt = Arr3 a' b' c'" by (cases "offset tgt")
  obtain d' e' f' where s': "size_md tgt = Arr3 d' e' f'" by (cases "size_md tgt")
  have up: "[0..<NB_RES] = [0, 1, 2]" by (simp add: upt_rec)
  show ?thesis by (simp add: copy_res_def up o s o' s')
qed

subsection \<open>The loops, one step at a time\<close>

lemma free_loop_step:
  "i < n \<Longrightarrow> free_loop md n i =
     (if is_valid (md ! i) = 0 then int i else free_loop md n (Suc i))"
  by (subst free_loop.simps) simp

lemma free_loop_done: "\<not> i < n \<Longrightarrow> free_loop md n i = - 1"
  by (subst free_loop.simps) simp

lemma free_loop_first:
  "i \<le> k \<Longrightarrow> k < n \<Longrightarrow> is_valid (md ! k) = 0 \<Longrightarrow>
   (\<forall>j. i \<le> j \<and> j < k \<longrightarrow> is_valid (md ! j) \<noteq> 0) \<Longrightarrow>
   free_loop md n i = int k"
proof (induction "k - i" arbitrary: i)
  case 0
  then have "i = k" by simp
  then show ?case using "0.prems" by (simp add: free_loop_step)
next
  case (Suc d)
  then have lt: "i < k" by simp
  then have "i < n" using Suc.prems by simp
  moreover have "is_valid (md ! i) \<noteq> 0" using Suc.prems lt by simp
  moreover have "free_loop md n (Suc i) = int k"
    using Suc.hyps(2) Suc.prems lt by (intro Suc.hyps(1)) auto
  ultimately show ?case by (simp add: free_loop_step)
qed

lemma free_loop_result:
  "free_loop md n i = - 1 \<or>
   (\<exists>k. free_loop md n i = int k \<and> i \<le> k \<and> k < n \<and> is_valid (md ! k) = 0)"
proof (induction "n - i" arbitrary: i)
  case 0
  then show ?case by (simp add: free_loop_done)
next
  case (Suc d)
  then have lt: "i < n" by simp
  have "n - Suc i = d" using Suc.hyps(2) by simp
  then have IH: "free_loop md n (Suc i) = - 1 \<or>
     (\<exists>k. free_loop md n (Suc i) = int k \<and> Suc i \<le> k \<and> k < n \<and> is_valid (md ! k) = 0)"
    using Suc.hyps(1) [of "Suc i"] by simp
  show ?case
  proof (cases "is_valid (md ! i) = 0")
    case True
    then show ?thesis using lt by (auto simp: free_loop_step)
  next
    case False
    then show ?thesis using lt IH by (auto simp: free_loop_step)
  qed
qed

lemma dedup_loop_step:
  "i < n \<Longrightarrow> dedup_loop md index n i =
     (if i \<noteq> index \<and> is_valid (md ! i) \<noteq> 0 then
        (if img_id (md ! i) = img_id (md ! index) then (ERR_DUPLICATE_ID, md)
         else if SHA (md ! i) = SHA (md ! index)
           then dedup_loop (md[index := copy_res (md ! i) (md ! index)]) index n (Suc i)
           else dedup_loop md index n (Suc i))
      else dedup_loop md index n (Suc i))"
  by (subst dedup_loop.simps) simp

lemma dedup_loop_done: "\<not> i < n \<Longrightarrow> dedup_loop md index n i = (ERR_NONE, md)"
  by (subst dedup_loop.simps) simp

lemma dedup_loop_duplicate:
  "index < length md \<Longrightarrow> i \<le> j \<Longrightarrow> j < n \<Longrightarrow> j \<noteq> index \<Longrightarrow> is_valid (md ! j) \<noteq> 0 \<Longrightarrow>
   img_id (md ! j) = img_id (md ! index) \<Longrightarrow>
   fst (dedup_loop md index n i) = ERR_DUPLICATE_ID"
proof (induction "n - i" arbitrary: i md)
  case 0
  then show ?case by simp
next
  case (Suc d)
  have lt: "i < n" using Suc.prems by simp
  let ?md' = "md[index := copy_res (md ! i) (md ! index)]"
  show ?case
  proof (cases "i = j")
    case True
    then show ?thesis using Suc.prems lt by (simp add: dedup_loop_step)
  next
    case False
    then have le: "Suc i \<le> j" using Suc.prems by simp
    have d: "d = n - (Suc i)" using Suc.hyps(2) by simp
    have r1: "fst (dedup_loop ?md' index n (Suc i)) = ERR_DUPLICATE_ID"
    proof (rule Suc.hyps(1) [OF d _ le])
      show "index < length ?md'" using Suc.prems by simp
      show "j < n" by (rule Suc.prems)
      show "j \<noteq> index" by (rule Suc.prems)
      show "is_valid (?md' ! j) \<noteq> 0" using Suc.prems by simp
      show "img_id (?md' ! j) = img_id (?md' ! index)"
        using Suc.prems by (simp add: copy_res_eq)
    qed
    have r2: "fst (dedup_loop md index n (Suc i)) = ERR_DUPLICATE_ID"
      by (rule Suc.hyps(1) [OF d _ le]) (rule Suc.prems)+
    show ?thesis by (simp add: dedup_loop_step [OF lt] r1 r2)
  qed
qed

lemma dedup_loop_code:
  "fst (dedup_loop md index n i) = ERR_NONE \<or> fst (dedup_loop md index n i) = ERR_DUPLICATE_ID"
proof (induction "n - i" arbitrary: i md)
  case 0
  then show ?case by (simp add: dedup_loop_done)
next
  case (Suc d)
  then have lt: "i < n" by simp
  have d: "d = n - Suc i" using Suc.hyps(2) by simp
  show ?case
    using Suc.hyps(1) [OF d, of md]
          Suc.hyps(1) [OF d, of "md[index := copy_res (md ! i) (md ! index)]"]
    by (simp add: dedup_loop_step [OF lt])
qed

lemma dedup_loop_table:
  "(snd (dedup_loop md index n i))[index := z] = md[index := z]"
proof (induction "n - i" arbitrary: i md)
  case 0
  then show ?case by (simp add: dedup_loop_done)
next
  case (Suc d)
  then have lt: "i < n" by simp
  have d: "d = n - Suc i" using Suc.hyps(2) by simp
  show ?case
    using Suc.hyps(1) [OF d, of md]
          Suc.hyps(1) [OF d, of "md[index := copy_res (md ! i) (md ! index)]"]
    by (simp add: dedup_loop_step [OF lt])
qed

lemma dedup_code:
  "fst (do_name_and_content_dedup h md k) = ERR_NONE \<or>
   fst (do_name_and_content_dedup h md k) = ERR_DUPLICATE_ID \<or>
   fst (do_name_and_content_dedup h md k) = ERR_IMAGE_NOT_FOUND"
  using dedup_loop_code
    [of "md[unat k := (md ! unat k)\<lparr>offset := set3 (offset (md ! unat k)) 2 0\<rparr>]"
        "unat k" "unat (max_files h)" 0]
  by (auto simp: do_name_and_content_dedup_def Let_def)

lemma write_image_header: "write_image b idx s = (e, s') \<Longrightarrow> header s' = header s"
  by (auto simp: write_image_def Let_def split: if_splits prod.splits)

lemma write_image_code: "write_image b idx s = (e, s') \<Longrightarrow> e = ERR_NONE \<or> e = ERR_IO"
  by (auto simp: write_image_def Let_def split: if_splits prod.splits)

lemma whm_header:
  "write_header_and_metadata P idx s = (e, s') \<Longrightarrow>
   header s' = (header s)\<lparr>version := version (header s) + 1\<rparr> \<and> metadata s' = metadata s"
  by (auto simp: write_header_and_metadata_def Let_def split: if_splits prod.splits)

lemma whm_code:
  "write_header_and_metadata P idx s = (e, s') \<Longrightarrow> e = ERR_NONE \<or> e = ERR_IO"
  by (auto simp: write_header_and_metadata_def Let_def split: if_splits prod.splits)

lemma do_insert_version:
  assumes "do_insert P b i s = (ERR_NONE, s')"
  shows "version (header s') = version (header s) + 1"
  using assms
  by (auto simp: do_insert_def Let_def split: if_splits prod.splits
           dest!: whm_header write_image_header)

lemma do_insert_failed_version:
  assumes "do_insert P b i s = (e, s')" and "e \<noteq> ERR_NONE" and "e \<noteq> ERR_IO"
  shows "version (header s') = version (header s)"
  using assms
  by (auto simp: do_insert_def Let_def split: if_splits prod.splits
           dest: whm_code write_image_code)

lemma do_delete_version:
  assumes "do_delete P i s = (ERR_NONE, s')"
  shows "version (header s') = version (header s) + 1"
  using assms
  by (auto simp: do_delete_def Let_def split: if_splits prod.splits)

lemma do_delete_failed_version:
  assumes "do_delete P i s = (e, s')" and "e \<noteq> ERR_NONE" and "e \<noteq> ERR_IO"
  shows "version (header s') = version (header s)"
  using assms
  by (auto simp: do_delete_def Let_def split: if_splits prod.splits)

lemma lazily_resize_header: "lazily_resize P r s p = (e, s') \<Longrightarrow> header s' = header s"
  by (auto simp: lazily_resize_def Let_def split: if_splits prod.splits option.splits)

lemma do_read_header: "do_read P i r s = (e, b, s') \<Longrightarrow> header s' = header s"
  by (auto simp: do_read_def Let_def split: if_splits prod.splits dest: lazily_resize_header)

lemmas ex_defs = ex_db_def ex_file_def ex_header_def ex_entry_def ex_platform_def zero_metadata_def
lemmas io_defs = io_next_def fseek_set_def fseek_end_def ftell_def fwrite1_def fread1_def write_at_def obj_bytes_def

lemma unat_index: "k < unat (m :: 32 word) \<Longrightarrow> unat (word_of_nat k :: 32 word) = k"
proof -
  assume "k < unat m"
  moreover have "unat m < 2 ^ 32" using unsigned_less [of m] by simp
  ultimately have "k < 2 ^ 32" by simp
  then show ?thesis by (simp add: unat_of_nat)
qed

lemma index_less: "k < unat (m :: 32 word) \<Longrightarrow> (word_of_nat k :: 32 word) < m"
  by (simp add: word_less_nat_alt unat_index)

lemma first_free_loop:
  "first_free s k \<Longrightarrow> free_loop (metadata s) (unat (max_files (header s))) 0 = int k"
  unfolding first_free_def by (intro free_loop_first) auto

lemma do_insert_populate:
  assumes "b \<noteq> []" and "nb_files (header s) < max_files (header s)" and "first_free s k"
  shows "do_insert P b i s =
     (let md0 = zero_metadata\<lparr>SHA := SHA256 P b, img_id := take MAX_IMG_ID i,
                               is_valid := NON_EMPTY\<rparr>;
          s1 = s\<lparr>metadata := (metadata s)[k := md0],
                  header := (header s)\<lparr>nb_files := nb_files (header s) + 1\<rparr>\<rparr>
      in
      (case get_resolution P b of (err, height, width) \<Rightarrow>
         if err \<noteq> ERR_NONE then (err, s1)
         else
           let s2 = s1\<lparr>metadata := (metadata s1)[k :=
                           (metadata s1 ! k)\<lparr>orig_res := (width, height)\<rparr>]\<rparr>
           in
           (case do_name_and_content_dedup (header s2) (metadata s2) (word_of_nat k) of
              (err, md') \<Rightarrow>
                if err \<noteq> ERR_NONE then
                  (if err = ERR_DUPLICATE_ID
                   then (err, s2\<lparr>metadata := md'[k := zero_metadata],
                                 header := (header s2)\<lparr>nb_files := nb_files (header s2) - 1\<rparr>\<rparr>)
                   else (err, s2\<lparr>metadata := md'\<rparr>))
                else
                  (case write_image b k (s2\<lparr>metadata := md'\<rparr>) of
                     (err, s3) \<Rightarrow>
                       if err \<noteq> ERR_NONE then (err, s3)
                       else write_header_and_metadata P k s3))))"
proof -
  have fl: "free_loop (metadata s) (unat (max_files (header s))) 0 = int k"
    using assms(3) by (rule first_free_loop)
  have k: "unat (word_of_nat k :: 32 word) = k"
    using assms(3) unat_index unfolding first_free_def by blast
  have nf: "\<not> max_files (header s) \<le> nb_files (header s)" using assms(2) by simp
  show ?thesis
    using assms(1) nf by (simp add: do_insert_def fl k Let_def cong: if_cong)
qed

subsection \<open>A failure of \<open>get_resolution\<close> leaves the new entry in place\<close>



subsection \<open>Inserting under an identifier that is in use\<close>

lemma dedup_duplicate:
  assumes "unat k < length md"
    and "k < max_files hdr" and "is_valid (md ! unat k) \<noteq> 0"
    and "j < unat (max_files hdr)" and "j \<noteq> unat k"
    and "is_valid (md ! j) \<noteq> 0" and "img_id (md ! j) = img_id (md ! unat k)"
  shows "fst (do_name_and_content_dedup hdr md k) = ERR_DUPLICATE_ID"
proof -
  let ?md1 = "md[unat k := (md ! unat k)\<lparr>offset := set3 (offset (md ! unat k)) ORIG_RES 0\<rparr>]"
  have "fst (dedup_loop ?md1 (unat k) (unat (max_files hdr)) 0) = ERR_DUPLICATE_ID"
    using assms by (intro dedup_loop_duplicate [where j = j]) simp_all
  moreover have "\<not> max_files hdr \<le> k" using assms(2) by simp
  ultimately show ?thesis
    using assms(3) by (simp add: do_name_and_content_dedup_def Let_def)
qed

lemma dedup_table:
  "(snd (do_name_and_content_dedup hdr md k))[unat k := z] = md[unat k := z]"
  using dedup_loop_table
    [of "md[unat k := (md ! unat k)\<lparr>offset := set3 (offset (md ! unat k)) ORIG_RES 0\<rparr>]"
        "unat k" "unat (max_files hdr)" 0 z]
  by (simp add: do_name_and_content_dedup_def Let_def)

subsection \<open>Deduplication reports a name clash wherever it stands in the table\<close>

text \<open>
  C4. \<open>do_name_and_content_dedup\<close> on a valid entry \<open>k\<close> of the table: if any other
  valid entry \<open>j\<close> holds the same \<open>img_id\<close>, the result is \<open>ERR_DUPLICATE_ID\<close>. Nothing
  is assumed about the entries before \<open>j\<close>, so an entry with the same digest at a lower
  index does not end the search with success.
\<close>

theorem dedup_duplicate_id_whole_table:
  assumes "length md = unat (max_files hdr)"
    and "k < max_files hdr" and "is_valid (md ! unat k) \<noteq> 0"
    and "j < unat (max_files hdr)" and "j \<noteq> unat k"
    and "is_valid (md ! j) \<noteq> 0" and "img_id (md ! j) = img_id (md ! unat k)"
  shows "fst (do_name_and_content_dedup hdr md k) = ERR_DUPLICATE_ID"
proof -
  have "unat k < length md" using assms(1,2) by (simp add: word_less_nat_alt)
  then show ?thesis using assms(2-7) by (rule dedup_duplicate)
qed

text \<open>
  An instance: entry 0 has the digest of entry 2, entry 1 its name; the result is the
  name clash.
\<close>

theorem dedup_duplicate_id_whole_table_witness:
  "SHA (ex_entry ''a'' [7] 3 1) = SHA (ex_entry ''b'' [7] 0 0) \<and>
   fst (do_name_and_content_dedup (ex_header 0 3 3)
          [ex_entry ''a'' [7] 3 1, ex_entry ''b'' [8] 4 1, ex_entry ''b'' [7] 0 0] 2)
     = ERR_DUPLICATE_ID"
  using dedup_duplicate_id_whole_table
    [of "[ex_entry ''a'' [7] 3 1, ex_entry ''b'' [8] 4 1, ex_entry ''b'' [7] 0 0]"
        "ex_header 0 3 3" 2 1]
  by (simp add: ex_entry_def ex_header_def)

text \<open>
  C3, as amended. On a database that is not full, with first free entry \<open>k\<close>, inserting
  an image (a non-empty buffer whose resolution can be read) under an identifier of at
  most 127 bytes that a valid entry already holds fails with \<open>ERR_DUPLICATE_ID\<close>.
  Afterwards the header (with \<open>nb_files\<close>) and the file are as before, every entry other
  than \<open>k\<close> is as before, and entry \<open>k\<close> is all zero, hence free as before.
\<close>

theorem insert_duplicate_id_reverts:
  assumes "image_buffer \<noteq> []"
    and "nb_files (header s) < max_files (header s)"
    and "first_free s k"
    and "fst (get_resolution P image_buffer) = ERR_NONE"
    and "length imgid \<le> MAX_IMG_ID"
    and "j < unat (max_files (header s))" and "j < length (metadata s)"
    and "is_valid (metadata s ! j) \<noteq> 0" and "img_id (metadata s ! j) = imgid"
  shows "\<exists>s'. do_insert P image_buffer imgid s = (ERR_DUPLICATE_ID, s') \<and>
           header s' = header s \<and> cfile s' = cfile s \<and>
           metadata s' = (metadata s)[k := zero_metadata]"
proof -
  obtain h w where gr: "get_resolution P image_buffer = (ERR_NONE, h, w)"
    using assms(4) by (cases "get_resolution P image_buffer") auto
  have klen: "k < length (metadata s)" and kmax: "k < unat (max_files (header s))"
    and kfree: "is_valid (metadata s ! k) = 0"
    using assms(3) by (simp_all add: first_free_def)
  have jk: "j \<noteq> k" using kfree assms(8) by auto
  have uk: "unat (word_of_nat k :: 32 word) = k" using kmax by (rule unat_index)
  let ?m = "zero_metadata\<lparr>SHA := SHA256 P image_buffer, img_id := take MAX_IMG_ID imgid,
                            is_valid := NON_EMPTY, orig_res := (w, h)\<rparr>"
  let ?md2 = "(metadata s)[k := ?m]"
  let ?hdr = "(header s)\<lparr>nb_files := nb_files (header s) + 1\<rparr>"
  have dup: "fst (do_name_and_content_dedup ?hdr ?md2 (word_of_nat k)) = ERR_DUPLICATE_ID"
  proof (rule dedup_duplicate [where j = j])
    show "unat (word_of_nat k :: 32 word) < length ?md2" using klen uk by simp
    show "(word_of_nat k :: 32 word) < max_files ?hdr" using kmax by (simp add: index_less)
    show "is_valid (?md2 ! unat (word_of_nat k :: 32 word)) \<noteq> 0" using klen uk by simp
    show "j < unat (max_files ?hdr)" using assms(6) by simp
    show "j \<noteq> unat (word_of_nat k :: 32 word)" using jk uk by simp
    show "is_valid (?md2 ! j) \<noteq> 0" using jk assms(8) by simp
    show "img_id (?md2 ! j) = img_id (?md2 ! unat (word_of_nat k :: 32 word))"
      using jk klen uk assms(5,9) by simp
  qed
  have tab: "(snd (do_name_and_content_dedup ?hdr ?md2 (word_of_nat k)))[k := zero_metadata]
               = (metadata s)[k := zero_metadata]"
    using dedup_table [of ?hdr ?md2 "word_of_nat k" zero_metadata] uk by simp
  obtain e md' where d: "do_name_and_content_dedup ?hdr ?md2 (word_of_nat k) = (e, md')"
    by (cases "do_name_and_content_dedup ?hdr ?md2 (word_of_nat k)")
  have e: "e = ERR_DUPLICATE_ID" using dup d by simp
  have md': "md'[k := zero_metadata] = (metadata s)[k := zero_metadata]" using tab d by simp
  show ?thesis
    using klen gr d e md'
    by (simp add: do_insert_populate [OF assms(1,2,3)] Let_def)
qed

lemmas insert_defs = do_insert_def Let_def free_loop.simps do_name_and_content_dedup_def
  dedup_loop.simps write_image_def write_header_and_metadata_def copy_res_eq

text \<open>An instance: a table of two entries, the first holding \<open>a\<close>, the second free.\<close>

theorem insert_duplicate_id_reverts_witness:
  "\<exists>s'. do_insert ex_platform [0xFF, 0xD8] ''a''
           (ex_db 0 1 [ex_entry ''a'' [0xFF, 0xD8] 4 2, zero_metadata] [0, 0, 0, 0, 0xFF, 0xD8])
         = (ERR_DUPLICATE_ID, s') \<and>
       header s' = ex_header 0 1 2 \<and> cfile s' = ex_file [0, 0, 0, 0, 0xFF, 0xD8] \<and>
       metadata s' = [ex_entry ''a'' [0xFF, 0xD8] 4 2, zero_metadata]"
  using insert_duplicate_id_reverts
    [of "[0xFF, 0xD8]"
        "ex_db 0 1 [ex_entry ''a'' [0xFF, 0xD8] 4 2, zero_metadata] [0, 0, 0, 0, 0xFF, 0xD8]"
        1 ex_platform "''a''" 0]
  by (simp add: ex_defs first_free_def)

text \<open>
  The claim as stated, for every database: on a full database the capacity check comes
  first, and the insert under the identifier in use fails with \<open>ERR_IMGFS_FULL\<close>.
\<close>

theorem insert_duplicate_id_full_counterexample:
  "is_valid (metadata (ex_db 0 1 [ex_entry ''a'' [0xFF, 0xD8] 3 2] [0, 0, 0, 0xFF, 0xD8]) ! 0) = NON_EMPTY \<and>
   img_id (metadata (ex_db 0 1 [ex_entry ''a'' [0xFF, 0xD8] 3 2] [0, 0, 0, 0xFF, 0xD8]) ! 0) = ''a'' \<and>
   fst (do_insert ex_platform [0xFF, 0xD8] ''a''
          (ex_db 0 1 [ex_entry ''a'' [0xFF, 0xD8] 3 2] [0, 0, 0, 0xFF, 0xD8])) = ERR_IMGFS_FULL"
  by (simp add: do_insert_def ex_defs)

subsection \<open>\<open>do_insert\<close> does not check the identifier\<close>

lemma dedup_code':
  "do_name_and_content_dedup h md k = (e, md') \<Longrightarrow>
   e = ERR_NONE \<or> e = ERR_DUPLICATE_ID \<or> e = ERR_IMAGE_NOT_FOUND"
  using dedup_code [of h md k] by simp

text \<open>
  The identifier takes no part in the checks of \<open>do_insert\<close>: the insert under an
  identifier is the insert under its first 127 bytes, and \<open>ERR_INVALID_IMGID\<close> is returned
  only if \<open>get_resolution\<close> returns it.
\<close>

lemma do_insert_take_id:
  "do_insert P b i s = do_insert P b (take MAX_IMG_ID i) s"
  by (simp add: do_insert_def Let_def cong: if_cong)

lemma do_insert_not_invalid_imgid:
  assumes g: "fst (get_resolution P b) \<noteq> ERR_INVALID_IMGID"
  shows "fst (do_insert P b i s) \<noteq> ERR_INVALID_IMGID"
proof
  assume a: "fst (do_insert P b i s) = ERR_INVALID_IMGID"
  obtain e s' where r: "do_insert P b i s = (e, s')" by (cases "do_insert P b i s")
  have e: "e = ERR_INVALID_IMGID" using a r by simp
  show False
    using r g unfolding e
    by (auto simp: do_insert_def Let_def split: if_splits prod.splits
             dest: whm_code write_image_code dedup_code')
qed

text \<open>
  C6, the code at the failing input. On an empty database of one entry, \<open>do_insert\<close> of a
  decodable image under the empty identifier returns \<open>ERR_NONE\<close>, and afterwards
  \<open>nb_files\<close> is 1 and the entry 0 is valid and holds the empty identifier. Under an
  identifier of 128 bytes it returns \<open>ERR_NONE\<close> too, and the entry holds the first 127
  bytes. \<open>do_insert\<close> has no check of \<open>img_id\<close>, and \<open>do_insert_cmd\<close> passes the argument of
  the command line on as it is, whereas \<open>do_delete_cmd\<close> returns \<open>ERR_INVALID_IMGID\<close> for
  an identifier that is empty or longer than \<open>MAX_IMG_ID\<close>.
\<close>

theorem insert_accepts_invalid_id:
  "fst (do_insert ex_platform [0xFF, 0xD8] [] (ex_db 0 0 [zero_metadata] [0, 0, 0])) = ERR_NONE \<and>
   nb_files (header (snd (do_insert ex_platform [0xFF, 0xD8] []
                            (ex_db 0 0 [zero_metadata] [0, 0, 0])))) = 1 \<and>
   is_valid (metadata (snd (do_insert ex_platform [0xFF, 0xD8] []
                              (ex_db 0 0 [zero_metadata] [0, 0, 0]))) ! 0) = NON_EMPTY \<and>
   img_id (metadata (snd (do_insert ex_platform [0xFF, 0xD8] []
                            (ex_db 0 0 [zero_metadata] [0, 0, 0]))) ! 0) = [] \<and>
   fst (do_insert ex_platform [0xFF, 0xD8] (replicate 128 (CHR ''x''))
          (ex_db 0 0 [zero_metadata] [0, 0, 0])) = ERR_NONE \<and>
   nb_files (header (snd (do_insert ex_platform [0xFF, 0xD8] (replicate 128 (CHR ''x''))
                            (ex_db 0 0 [zero_metadata] [0, 0, 0])))) = 1 \<and>
   is_valid (metadata (snd (do_insert ex_platform [0xFF, 0xD8] (replicate 128 (CHR ''x''))
                              (ex_db 0 0 [zero_metadata] [0, 0, 0]))) ! 0) = NON_EMPTY \<and>
   img_id (metadata (snd (do_insert ex_platform [0xFF, 0xD8] (replicate 128 (CHR ''x''))
                            (ex_db 0 0 [zero_metadata] [0, 0, 0]))) ! 0)
     = replicate 127 (CHR ''x'')"
  by (simp add: insert_defs ex_defs io_defs)

subsection \<open>The version counter\<close>

lemma word32_inc_less: "(x :: 32 word) \<noteq> - 1 \<Longrightarrow> x < x + 1"
  by (metis inc_less_eq_triv_imp linorder_less_linear word_le_less_eq)

text \<open>
  C7, as amended. A successful \<open>do_insert\<close> and a successful \<open>do_delete\<close> set
  \<open>header.version\<close>, an unsigned 32-bit counter, to its value plus one modulo \<open>2 ^ 32\<close>:
  a strict increase by exactly one unless the version was \<open>2 ^ 32 - 1\<close> (written \<open>- 1\<close>
  below). \<open>do_read\<close>, with the lazy resizing it may run, leaves the version as it was,
  and so does an insert or a delete that fails with an error other than \<open>ERR_IO\<close>.
\<close>

theorem version_increment:
  "(do_insert P b i s = (ERR_NONE, s1) \<longrightarrow>
      version (header s1) = version (header s) + 1 \<and>
      (version (header s) \<noteq> - 1 \<longrightarrow> version (header s) < version (header s1))) \<and>
   (do_delete P j s = (ERR_NONE, s2) \<longrightarrow>
      version (header s2) = version (header s) + 1 \<and>
      (version (header s) \<noteq> - 1 \<longrightarrow> version (header s) < version (header s2))) \<and>
   (do_read P j r s = (e3, buf, s3) \<longrightarrow> version (header s3) = version (header s)) \<and>
   (do_insert P b' i' s = (e4, s4) \<and> e4 \<noteq> ERR_NONE \<and> e4 \<noteq> ERR_IO \<longrightarrow>
      version (header s4) = version (header s)) \<and>
   (do_delete P j' s = (e5, s5) \<and> e5 \<noteq> ERR_NONE \<and> e5 \<noteq> ERR_IO \<longrightarrow>
      version (header s5) = version (header s))"
proof (intro conjI impI)
  assume a: "do_insert P b i s = (ERR_NONE, s1)"
  then show v: "version (header s1) = version (header s) + 1" by (rule do_insert_version)
  assume "version (header s) \<noteq> - 1"
  then show "version (header s) < version (header s1)" unfolding v by (rule word32_inc_less)
next
  assume a: "do_delete P j s = (ERR_NONE, s2)"
  then show v: "version (header s2) = version (header s) + 1" by (rule do_delete_version)
  assume "version (header s) \<noteq> - 1"
  then show "version (header s) < version (header s2)" unfolding v by (rule word32_inc_less)
next
  assume "do_read P j r s = (e3, buf, s3)"
  then show "version (header s3) = version (header s)" by (simp add: do_read_header)
next
  assume "do_insert P b' i' s = (e4, s4) \<and> e4 \<noteq> ERR_NONE \<and> e4 \<noteq> ERR_IO"
  then show "version (header s4) = version (header s)"
    using do_insert_failed_version by blast
next
  assume "do_delete P j' s = (e5, s5) \<and> e5 \<noteq> ERR_NONE \<and> e5 \<noteq> ERR_IO"
  then show "version (header s5) = version (header s)"
    using do_delete_failed_version by blast
qed

text \<open>
  An instance on the database \<open>ex_db_one\<close> at version 5: a successful insert, a
  successful delete, a read, an insert that fails on the name and a delete that finds
  nothing.
\<close>

lemmas read_defs = do_read_def find_pos_by_id_def find_pos_loop.simps Let_def
lemmas delete_defs = do_delete_def delete_loop.simps Let_def

lemma ex_insert_b:
  "fst (do_insert ex_platform [0xFF, 0xD8, 7] ''b'' ex_db_one) = ERR_NONE"
  by (simp add: ex_db_one_def insert_defs ex_defs io_defs word_le_nat_alt)

lemma ex_delete_a: "fst (do_delete ex_platform ''a'' ex_db_one) = ERR_NONE"
  by (simp add: ex_db_one_def delete_defs ex_defs io_defs)

lemma ex_read_a: "fst (do_read ex_platform ''a'' 2 ex_db_one) = ERR_NONE"
  by (simp add: ex_db_one_def read_defs ex_defs io_defs)

lemma ex_insert_a:
  "fst (do_insert ex_platform [0xFF, 0xD8] ''a'' ex_db_one) = ERR_DUPLICATE_ID"
  by (simp add: ex_db_one_def insert_defs ex_defs io_defs word_le_nat_alt)

lemma ex_delete_z: "fst (do_delete ex_platform ''z'' ex_db_one) = ERR_IMAGE_NOT_FOUND"
  by (simp add: ex_db_one_def delete_defs ex_defs io_defs)

theorem version_increment_witness:
  "version (header ex_db_one) = 5 \<and>
   version (header (snd (do_insert ex_platform [0xFF, 0xD8, 7] ''b'' ex_db_one))) = 6 \<and>
   version (header (snd (do_delete ex_platform ''a'' ex_db_one))) = 6 \<and>
   version (header (snd (snd (do_read ex_platform ''a'' 2 ex_db_one)))) = 5 \<and>
   version (header (snd (do_insert ex_platform [0xFF, 0xD8] ''a'' ex_db_one))) = 5 \<and>
   version (header (snd (do_delete ex_platform ''z'' ex_db_one))) = 5"
proof -
  have v: "version (header ex_db_one) = 5" by (simp add: ex_db_one_def ex_defs)
  have 1: "do_insert ex_platform [0xFF, 0xD8, 7] ''b'' ex_db_one
             = (ERR_NONE, snd (do_insert ex_platform [0xFF, 0xD8, 7] ''b'' ex_db_one))"
    using ex_insert_b by (simp add: prod_eq_iff)
  have 2: "do_delete ex_platform ''a'' ex_db_one
             = (ERR_NONE, snd (do_delete ex_platform ''a'' ex_db_one))"
    using ex_delete_a by (simp add: prod_eq_iff)
  have 3: "do_read ex_platform ''a'' 2 ex_db_one
             = (ERR_NONE, fst (snd (do_read ex_platform ''a'' 2 ex_db_one)),
                snd (snd (do_read ex_platform ''a'' 2 ex_db_one)))"
    using ex_read_a by (simp add: prod_eq_iff)
  have 4: "do_insert ex_platform [0xFF, 0xD8] ''a'' ex_db_one
             = (ERR_DUPLICATE_ID, snd (do_insert ex_platform [0xFF, 0xD8] ''a'' ex_db_one))"
    using ex_insert_a by (simp add: prod_eq_iff)
  have 5: "do_delete ex_platform ''z'' ex_db_one
             = (ERR_IMAGE_NOT_FOUND, snd (do_delete ex_platform ''z'' ex_db_one))"
    using ex_delete_z by (simp add: prod_eq_iff)
  show ?thesis
    using version_increment
      [of ex_platform "[0xFF, 0xD8, 7]" "''b''" ex_db_one
          "snd (do_insert ex_platform [0xFF, 0xD8, 7] ''b'' ex_db_one)"
          "''a''" "snd (do_delete ex_platform ''a'' ex_db_one)"
          2 ERR_NONE "fst (snd (do_read ex_platform ''a'' 2 ex_db_one))"
          "snd (snd (do_read ex_platform ''a'' 2 ex_db_one))"
          "[0xFF, 0xD8]" "''a''" ERR_DUPLICATE_ID
          "snd (do_insert ex_platform [0xFF, 0xD8] ''a'' ex_db_one)"
          "''z''" ERR_IMAGE_NOT_FOUND "snd (do_delete ex_platform ''z'' ex_db_one)"]
          1 2 3 4 5 v
    by simp
qed

text \<open>
  The claim as stated: at version \<open>2 ^ 32 - 1\<close> a successful delete leaves version 0,
  which is no increase.
\<close>

theorem version_wraps_counterexample:
  "fst (do_delete ex_platform ''a'' (ex_db 0xFFFFFFFF 1 [ex_entry ''a'' [7] 3 1] [0, 0, 0, 9]))
     = ERR_NONE \<and>
   version (header (ex_db 0xFFFFFFFF 1 [ex_entry ''a'' [7] 3 1] [0, 0, 0, 9])) = 0xFFFFFFFF \<and>
   version (header (snd (do_delete ex_platform ''a''
                           (ex_db 0xFFFFFFFF 1 [ex_entry ''a'' [7] 3 1] [0, 0, 0, 9])))) = 0"
  by (simp add: delete_defs ex_defs io_defs)

subsection \<open>Lazy resizing of an image behind a hole\<close>

lemmas http_defs = http_parse_message_def get_next_token_def strstr_at_def
  parse_headers_loop.simps HTTP_LINE_DELIM_def HTTP_HDR_END_DELIM_def HTTP_HDR_KV_DELIM_def
  MAX_HEADERS_def strncmp_eq_def atoi_def isspace_def isdigit_def Let_def

lemma ex_db_hole_eq:
  "ex_db_hole =
     \<lparr>cfile = \<lparr>content = [3, 1, 0, 1, 0xFF, 0xD8, 1, 0xFF, 0xD8, 2], pos = 2, io = []\<rparr>,
      header = ex_header 3 1 2,
      metadata = [(ex_entry ''a'' [0xFF, 0xD8, 1] 4 3)\<lparr>is_valid := 0\<rparr>,
                  ex_entry ''b'' [0xFF, 0xD8, 2] 7 3]\<rparr>"
  by (simp add: ex_db_hole_def insert_defs delete_defs ex_defs io_defs word_le_nat_alt)

text \<open>
  C5, the code at the failing input. In \<open>ex_db_hole\<close> the valid image \<open>b\<close> has no
  thumbnail yet and stands at index 1, while \<open>nb_files\<close> is 1. Reading its original
  succeeds; reading its thumbnail calls \<open>lazily_resize\<close>, which compares the index with
  \<open>nb_files\<close> and returns \<open>ERR_INVALID_IMGID\<close>, so the read fails and nothing is resized.
\<close>

theorem read_resize_behind_hole:
  "is_valid (metadata ex_db_hole ! 1) = NON_EMPTY \<and> img_id (metadata ex_db_hole ! 1) = ''b'' \<and>
   get3 (size_md (metadata ex_db_hole ! 1)) THUMB_RES = 0 \<and>
   nb_files (header ex_db_hole) = 1 \<and>
   fst (do_read ex_platform ''b'' (int ORIG_RES) ex_db_hole) = ERR_NONE \<and>
   fst (do_read ex_platform ''b'' (int THUMB_RES) ex_db_hole) = ERR_INVALID_IMGID"
  by (simp add: ex_db_hole_eq read_defs lazily_resize_def ex_defs io_defs)

subsection \<open>The header that supplies the content length\<close>

text \<open>
  C8, the code at the failing input. The request has the single header \<open>Content: 5\<close> and
  no body, and all its 30 bytes are received: \<open>http_parse_message\<close> takes 5 as the
  content length from that header and returns 0 (incomplete). With the header \<open>Host: 5\<close>
  instead, the content length is 0 and the result is 1. The key is compared with
  \<open>Content-Length\<close> over the length of the key only, so every prefix of \<open>Content-Length\<close>
  passes.
\<close>

theorem content_length_from_shorter_key:
  "http_parse_message (ex_request ''/'' ''Content: 5'') 30 empty_message 0
     = (0, fst (snd (http_parse_message (ex_request ''/'' ''Content: 5'') 30 empty_message 0)), 5) \<and>
   http_parse_message (ex_request ''/'' ''Host: 5'') 27 empty_message 0
     = (1, fst (snd (http_parse_message (ex_request ''/'' ''Host: 5'') 27 empty_message 0)), 0)"
  by (simp add: ex_request_def empty_message_def http_defs)

subsection \<open>Routing by prefix\<close>

lemma match_uri_prefix:
  "http_match_uri msg target \<longleftrightarrow> (\<exists>rest. val (uri msg) = target @ rest)"
proof
  assume "http_match_uri msg target"
  then have "take (length target) (val (uri msg)) = target"
    by (simp add: http_match_uri_def strncmp_eq_def)
  then have "val (uri msg) = target @ drop (length target) (val (uri msg))"
    by (metis append_take_drop_id)
  then show "\<exists>rest. val (uri msg) = target @ rest" by blast
next
  assume "\<exists>rest. val (uri msg) = target @ rest"
  then show "http_match_uri msg target"
    by (auto simp: http_match_uri_def strncmp_eq_def)
qed

lemma strstr_char:
  "strstr s [c] = Some i \<Longrightarrow> i < length s \<and> s ! i = c \<and> c \<notin> set (take i s)"
proof (induction s arbitrary: i)
  case Nil
  then show ?case by simp
next
  case (Cons a s)
  show ?case
  proof (cases "a = c")
    case True
    then show ?thesis using Cons.prems by simp
  next
    case False
    then obtain i' where i: "i = Suc i'" and s: "strstr s [c] = Some i'"
      using Cons.prems by auto
    show ?thesis using Cons.IH [OF s] False unfolding i by simp
  qed
qed

lemma token_shape:
  assumes "get_next_token stream p [c] = Some (q, t)"
  shows "len t < length (val t) \<and> val t ! len t = c \<and> c \<notin> set (chars_of t)"
  using assms strstr_char [of "drop p stream" c]
  by (auto simp: get_next_token_def strstr_at_def chars_of_def split: option.splits)

lemma parse_shape:
  assumes "http_parse_message stream n out cl = (1, msg, cl')"
  shows "len (uri msg) < length (val (uri msg)) \<and> val (uri msg) ! len (uri msg) = CHR '' '' \<and>
         CHR '' '' \<notin> set (chars_of (uri msg)) \<and>
         len (meth msg) < length (val (meth msg))"
  using assms
  by (auto simp: http_parse_message_def Let_def
           split: option.splits prod.splits if_splits dest: token_shape)

lemma match_verb_token:
  assumes "len m \<le> length (val m)"
  shows "http_match_verb m verb \<longleftrightarrow> chars_of m = verb"
  using assms by (auto simp: http_match_verb_def strncmp_eq_def chars_of_def)

lemma match_uri_token:
  assumes k: "len (uri msg) < length (val (uri msg))"
    and sp: "val (uri msg) ! len (uri msg) = CHR '' ''"
    and t: "CHR '' '' \<notin> set target"
  shows "http_match_uri msg target \<longleftrightarrow> (\<exists>r. chars_of (uri msg) = target @ r)"
proof
  assume "http_match_uri msg target"
  then have m: "take (length target) (val (uri msg)) = target"
    by (simp add: http_match_uri_def strncmp_eq_def)
  have le: "length target \<le> len (uri msg)"
  proof (rule ccontr)
    assume "\<not> length target \<le> len (uri msg)"
    then have lt: "len (uri msg) < length target" by simp
    have "target ! len (uri msg) = take (length target) (val (uri msg)) ! len (uri msg)"
      using m by simp
    also have "\<dots> = val (uri msg) ! len (uri msg)" using lt by simp
    finally have "target ! len (uri msg) = CHR '' ''" using sp by simp
    then show False using t lt by (metis nth_mem)
  qed
  have "chars_of (uri msg) =
          take (length target) (chars_of (uri msg)) @ drop (length target) (chars_of (uri msg))"
    by simp
  also have "take (length target) (chars_of (uri msg)) = target"
    using le m by (simp add: chars_of_def min_def)
  finally show "\<exists>r. chars_of (uri msg) = target @ r" by blast
next
  assume "\<exists>r. chars_of (uri msg) = target @ r"
  then obtain r where r: "take (len (uri msg)) (val (uri msg)) = target @ r"
    by (auto simp: chars_of_def)
  have "take (length target) (take (len (uri msg)) (val (uri msg))) = target"
    unfolding r by simp
  moreover have "length target \<le> len (uri msg)"
    using arg_cong [OF r, of length] k by simp
  ultimately have "take (length target) (val (uri msg)) = target"
    by (simp add: min_def)
  then show "http_match_uri msg target"
    by (simp add: http_match_uri_def strncmp_eq_def)
qed

lemma match_verb_any:
  "http_match_verb m verb \<longleftrightarrow> len m = length verb \<and> take (length verb) (val m) = verb"
  by (auto simp: http_match_verb_def strncmp_eq_def)

text \<open>
  C9, as amended. The router matches \<open>/\<close> and \<open>/index.html\<close> exactly and the four route
  paths as prefixes, in this order: base file, list, read, delete, insert (for the method
  \<open>POST\<close>), and it replies \<open>ERR_INVALID_COMMAND\<close> in every other case.

  First, for any message whatever: the exact match is of the length \<open>len\<close> of the URI and
  of that many characters at \<open>val\<close>; the prefix match is of the characters at \<open>val\<close>,
  whatever \<open>len\<close> is.

  Second, for every message that \<open>http_parse_message\<close> returns with the result 1, in
  terms of the URI itself (\<open>chars_of (uri msg)\<close>, the characters up to the first space after
  the method) and of the method: the base file is served exactly when the URI is \<open>/\<close> or
  \<open>/index.html\<close>; otherwise a URI that begins with \<open>/imgfs/list\<close>, \<open>/imgfs/read\<close> or
  \<open>/imgfs/delete\<close>, whatever follows, goes to that route's handler; otherwise a URI that
  begins with \<open>/imgfs/insert\<close> goes to the insert handler when the method is \<open>POST\<close>;
  and every other request, a URI of one character other than \<open>/\<close> included, is answered
  with \<open>ERR_INVALID_COMMAND\<close>.
\<close>

theorem route_by_prefix:
  "handle_http_message msg =
     (if len (uri msg) = 1 \<and> take 1 (val (uri msg)) = ''/'' \<or>
         len (uri msg) = 11 \<and> take 11 (val (uri msg)) = ''/index.html''
      then Serve_base_file
      else if \<exists>r. val (uri msg) = ''/imgfs/list'' @ r then Handle_list_call
      else if \<exists>r. val (uri msg) = ''/imgfs/read'' @ r then Handle_read_call
      else if \<exists>r. val (uri msg) = ''/imgfs/delete'' @ r then Handle_delete_call
      else if (\<exists>r. val (uri msg) = ''/imgfs/insert'' @ r) \<and>
              len (meth msg) = 4 \<and> take 4 (val (meth msg)) = ''POST''
      then Handle_insert_call
      else Reply_error_msg ERR_INVALID_COMMAND) \<and>
   (http_parse_message stream n out cl = (1, msg, cl') \<longrightarrow>
    handle_http_message msg =
     (if chars_of (uri msg) = ''/'' \<or> chars_of (uri msg) = ''/index.html''
      then Serve_base_file
      else if \<exists>r. chars_of (uri msg) = ''/imgfs/list'' @ r then Handle_list_call
      else if \<exists>r. chars_of (uri msg) = ''/imgfs/read'' @ r then Handle_read_call
      else if \<exists>r. chars_of (uri msg) = ''/imgfs/delete'' @ r then Handle_delete_call
      else if (\<exists>r. chars_of (uri msg) = ''/imgfs/insert'' @ r) \<and>
              chars_of (meth msg) = ''POST''
      then Handle_insert_call
      else Reply_error_msg ERR_INVALID_COMMAND))"
proof
  have v: "http_match_verb (uri msg) ''/'' \<longleftrightarrow>
             len (uri msg) = 1 \<and> take 1 (val (uri msg)) = ''/''"
          "http_match_verb (uri msg) ''/index.html'' \<longleftrightarrow>
             len (uri msg) = 11 \<and> take 11 (val (uri msg)) = ''/index.html''"
          "http_match_verb (meth msg) ''POST'' \<longleftrightarrow>
             len (meth msg) = 4 \<and> take 4 (val (meth msg)) = ''POST''"
    by (simp_all add: match_verb_any eval_nat_numeral)
  have mp: "http_match_uri msg (URI_ROOT @ ''/list'') \<longleftrightarrow>
              (\<exists>r. val (uri msg) = ''/imgfs/list'' @ r)"
           "http_match_uri msg (URI_ROOT @ ''/read'') \<longleftrightarrow>
              (\<exists>r. val (uri msg) = ''/imgfs/read'' @ r)"
           "http_match_uri msg (URI_ROOT @ ''/delete'') \<longleftrightarrow>
              (\<exists>r. val (uri msg) = ''/imgfs/delete'' @ r)"
           "http_match_uri msg (URI_ROOT @ ''/insert'') \<longleftrightarrow>
              (\<exists>r. val (uri msg) = ''/imgfs/insert'' @ r)"
    by (simp_all add: match_uri_prefix URI_ROOT_def)
  show "handle_http_message msg =
     (if len (uri msg) = 1 \<and> take 1 (val (uri msg)) = ''/'' \<or>
         len (uri msg) = 11 \<and> take 11 (val (uri msg)) = ''/index.html''
      then Serve_base_file
      else if \<exists>r. val (uri msg) = ''/imgfs/list'' @ r then Handle_list_call
      else if \<exists>r. val (uri msg) = ''/imgfs/read'' @ r then Handle_read_call
      else if \<exists>r. val (uri msg) = ''/imgfs/delete'' @ r then Handle_delete_call
      else if (\<exists>r. val (uri msg) = ''/imgfs/insert'' @ r) \<and>
              len (meth msg) = 4 \<and> take 4 (val (meth msg)) = ''POST''
      then Handle_insert_call
      else Reply_error_msg ERR_INVALID_COMMAND)"
    unfolding handle_http_message_def v mp by (rule refl)
next
  show "http_parse_message stream n out cl = (1, msg, cl') \<longrightarrow>
    handle_http_message msg =
     (if chars_of (uri msg) = ''/'' \<or> chars_of (uri msg) = ''/index.html''
      then Serve_base_file
      else if \<exists>r. chars_of (uri msg) = ''/imgfs/list'' @ r then Handle_list_call
      else if \<exists>r. chars_of (uri msg) = ''/imgfs/read'' @ r then Handle_read_call
      else if \<exists>r. chars_of (uri msg) = ''/imgfs/delete'' @ r then Handle_delete_call
      else if (\<exists>r. chars_of (uri msg) = ''/imgfs/insert'' @ r) \<and>
              chars_of (meth msg) = ''POST''
      then Handle_insert_call
      else Reply_error_msg ERR_INVALID_COMMAND)"
  proof
    assume p: "http_parse_message stream n out cl = (1, msg, cl')"
    note s = parse_shape [OF p]
    have u: "len (uri msg) < length (val (uri msg))"
      and sp: "val (uri msg) ! len (uri msg) = CHR '' ''"
      and m: "len (meth msg) \<le> length (val (meth msg))"
      using s by simp_all
    have ul: "len (uri msg) \<le> length (val (uri msg))" using u by simp
    have mu: "http_match_uri msg (URI_ROOT @ ''/list'') \<longleftrightarrow>
                (\<exists>r. chars_of (uri msg) = ''/imgfs/list'' @ r)"
             "http_match_uri msg (URI_ROOT @ ''/read'') \<longleftrightarrow>
                (\<exists>r. chars_of (uri msg) = ''/imgfs/read'' @ r)"
             "http_match_uri msg (URI_ROOT @ ''/delete'') \<longleftrightarrow>
                (\<exists>r. chars_of (uri msg) = ''/imgfs/delete'' @ r)"
             "http_match_uri msg (URI_ROOT @ ''/insert'') \<longleftrightarrow>
                (\<exists>r. chars_of (uri msg) = ''/imgfs/insert'' @ r)"
      using match_uri_token [OF u sp, of "''/imgfs/list''"]
            match_uri_token [OF u sp, of "''/imgfs/read''"]
            match_uri_token [OF u sp, of "''/imgfs/delete''"]
            match_uri_token [OF u sp, of "''/imgfs/insert''"]
      by (simp_all add: URI_ROOT_def)
    show "handle_http_message msg =
     (if chars_of (uri msg) = ''/'' \<or> chars_of (uri msg) = ''/index.html''
      then Serve_base_file
      else if \<exists>r. chars_of (uri msg) = ''/imgfs/list'' @ r then Handle_list_call
      else if \<exists>r. chars_of (uri msg) = ''/imgfs/read'' @ r then Handle_read_call
      else if \<exists>r. chars_of (uri msg) = ''/imgfs/delete'' @ r then Handle_delete_call
      else if (\<exists>r. chars_of (uri msg) = ''/imgfs/insert'' @ r) \<and>
              chars_of (meth msg) = ''POST''
      then Handle_insert_call
      else Reply_error_msg ERR_INVALID_COMMAND)"
      unfolding handle_http_message_def mu
        match_verb_token [OF ul] match_verb_token [OF m]
      by (rule refl)
  qed
qed

text \<open>
  Instances, each a \<open>GET\<close> request with one header line, parsed and then routed: the
  target \<open>/index.html\<close> is served the base file, \<open>/imgfs/read?res=orig&img_id=a\<close> goes
  to the read handler, \<open>/imgfs/insert?name=a\<close> (the method is not \<open>POST\<close>) and
  \<open>/index.htm\<close> are answered with \<open>ERR_INVALID_COMMAND\<close>.
\<close>

lemma ex_parse_index:
  "fst (http_parse_message (ex_request ''/index.html'' ''Host: x'') 37 empty_message 0) = 1"
  "chars_of (uri (fst (snd (http_parse_message (ex_request ''/index.html'' ''Host: x'') 37
                              empty_message 0)))) = ''/index.html''"
  "chars_of (meth (fst (snd (http_parse_message (ex_request ''/index.html'' ''Host: x'') 37
                               empty_message 0)))) = ''GET''"
  by (simp_all add: ex_request_def empty_message_def http_defs chars_of_def)

lemma ex_parse_read:
  "fst (http_parse_message (ex_request ''/imgfs/read?res=orig&img_id=a'' ''Host: x'') 55 empty_message 0) = 1"
  "chars_of (uri (fst (snd (http_parse_message (ex_request ''/imgfs/read?res=orig&img_id=a'' ''Host: x'') 55
                              empty_message 0)))) = ''/imgfs/read?res=orig&img_id=a''"
  "chars_of (meth (fst (snd (http_parse_message (ex_request ''/imgfs/read?res=orig&img_id=a'' ''Host: x'') 55
                               empty_message 0)))) = ''GET''"
  by (simp_all add: ex_request_def empty_message_def http_defs chars_of_def)

lemma ex_parse_insert:
  "fst (http_parse_message (ex_request ''/imgfs/insert?name=a'' ''Host: x'') 46 empty_message 0) = 1"
  "chars_of (uri (fst (snd (http_parse_message (ex_request ''/imgfs/insert?name=a'' ''Host: x'') 46
                              empty_message 0)))) = ''/imgfs/insert?name=a''"
  "chars_of (meth (fst (snd (http_parse_message (ex_request ''/imgfs/insert?name=a'' ''Host: x'') 46
                               empty_message 0)))) = ''GET''"
  by (simp_all add: ex_request_def empty_message_def http_defs chars_of_def)

lemma ex_parse_htm:
  "fst (http_parse_message (ex_request ''/index.htm'' ''Host: x'') 36 empty_message 0) = 1"
  "chars_of (uri (fst (snd (http_parse_message (ex_request ''/index.htm'' ''Host: x'') 36
                              empty_message 0)))) = ''/index.htm''"
  "chars_of (meth (fst (snd (http_parse_message (ex_request ''/index.htm'' ''Host: x'') 36
                               empty_message 0)))) = ''GET''"
  by (simp_all add: ex_request_def empty_message_def http_defs chars_of_def)

theorem route_by_prefix_witness:
  "handle_http_message (fst (snd (http_parse_message
      (ex_request ''/index.html'' ''Host: x'') 37 empty_message 0))) = Serve_base_file \<and>
   handle_http_message (fst (snd (http_parse_message
      (ex_request ''/imgfs/read?res=orig&img_id=a'' ''Host: x'') 55 empty_message 0)))
     = Handle_read_call \<and>
   handle_http_message (fst (snd (http_parse_message
      (ex_request ''/imgfs/insert?name=a'' ''Host: x'') 46 empty_message 0)))
     = Reply_error_msg ERR_INVALID_COMMAND \<and>
   handle_http_message (fst (snd (http_parse_message
      (ex_request ''/index.htm'' ''Host: x'') 36 empty_message 0)))
     = Reply_error_msg ERR_INVALID_COMMAND"
proof -
  have "http_parse_message (ex_request ''/index.html'' ''Host: x'') 37 empty_message 0 =
          (1, fst (snd (http_parse_message (ex_request ''/index.html'' ''Host: x'') 37
                          empty_message 0)),
              snd (snd (http_parse_message (ex_request ''/index.html'' ''Host: x'') 37
                          empty_message 0)))"
    using ex_parse_index(1) by (metis prod.collapse)
  from route_by_prefix [THEN conjunct2, rule_format, OF this]
  have a: "handle_http_message (fst (snd (http_parse_message
      (ex_request ''/index.html'' ''Host: x'') 37 empty_message 0))) = Serve_base_file"
    by (simp add: ex_parse_index)
  have "http_parse_message (ex_request ''/imgfs/read?res=orig&img_id=a'' ''Host: x'') 55 empty_message 0 =
          (1, fst (snd (http_parse_message (ex_request ''/imgfs/read?res=orig&img_id=a'' ''Host: x'') 55
                          empty_message 0)),
              snd (snd (http_parse_message (ex_request ''/imgfs/read?res=orig&img_id=a'' ''Host: x'') 55
                          empty_message 0)))"
    using ex_parse_read(1) by (metis prod.collapse)
  from route_by_prefix [THEN conjunct2, rule_format, OF this]
  have b: "handle_http_message (fst (snd (http_parse_message
      (ex_request ''/imgfs/read?res=orig&img_id=a'' ''Host: x'') 55 empty_message 0))) = Handle_read_call"
    by (simp add: ex_parse_read)
  have "http_parse_message (ex_request ''/imgfs/insert?name=a'' ''Host: x'') 46 empty_message 0 =
          (1, fst (snd (http_parse_message (ex_request ''/imgfs/insert?name=a'' ''Host: x'') 46
                          empty_message 0)),
              snd (snd (http_parse_message (ex_request ''/imgfs/insert?name=a'' ''Host: x'') 46
                          empty_message 0)))"
    using ex_parse_insert(1) by (metis prod.collapse)
  from route_by_prefix [THEN conjunct2, rule_format, OF this]
  have c: "handle_http_message (fst (snd (http_parse_message
      (ex_request ''/imgfs/insert?name=a'' ''Host: x'') 46 empty_message 0))) = Reply_error_msg ERR_INVALID_COMMAND"
    by (simp add: ex_parse_insert)
  have "http_parse_message (ex_request ''/index.htm'' ''Host: x'') 36 empty_message 0 =
          (1, fst (snd (http_parse_message (ex_request ''/index.htm'' ''Host: x'') 36
                          empty_message 0)),
              snd (snd (http_parse_message (ex_request ''/index.htm'' ''Host: x'') 36
                          empty_message 0)))"
    using ex_parse_htm(1) by (metis prod.collapse)
  from route_by_prefix [THEN conjunct2, rule_format, OF this]
  have d: "handle_http_message (fst (snd (http_parse_message
      (ex_request ''/index.htm'' ''Host: x'') 36 empty_message 0))) = Reply_error_msg ERR_INVALID_COMMAND"
    by (simp add: ex_parse_htm)
  show ?thesis using a b c d by blast
qed

text \<open>
  The claim as stated: the request \<open>GET /imgfs/listXYZ HTTP/1.1\<close>, of 40 bytes, is parsed,
  its URI is \<open>/imgfs/listXYZ\<close>, and the router calls the list handler instead of replying
  \<open>ERR_INVALID_COMMAND\<close>.
\<close>

theorem route_exact_counterexample:
  "fst (http_parse_message (ex_request ''/imgfs/listXYZ'' ''Host: x'') 40 empty_message 0) = 1 \<and>
   chars_of (uri (fst (snd (http_parse_message (ex_request ''/imgfs/listXYZ'' ''Host: x'') 40
                               empty_message 0)))) = ''/imgfs/listXYZ'' \<and>
   handle_http_message
     (fst (snd (http_parse_message (ex_request ''/imgfs/listXYZ'' ''Host: x'') 40
                  empty_message 0))) = Handle_list_call"
  by (simp add: ex_request_def empty_message_def http_defs handle_http_message_def
        http_match_uri_def http_match_verb_def URI_ROOT_def chars_of_def)

subsection \<open>The file calls when no call fails\<close>

lemma io_next_ok: "io f = [] \<Longrightarrow> io_next f = (True, f)"
  by (simp add: io_next_def)

lemma fseek_set_ok: "io f = [] \<Longrightarrow> 0 \<le> off \<Longrightarrow> fseek_set f off = (True, f\<lparr>pos := nat off\<rparr>)"
  by (simp add: fseek_set_def io_next_ok)

lemma fseek_set_nat: "io f = [] \<Longrightarrow> fseek_set f (int n) = (True, f\<lparr>pos := n\<rparr>)"
  by (simp add: fseek_set_def io_next_ok)

lemma fseek_end_ok: "io f = [] \<Longrightarrow> fseek_end f = (True, f\<lparr>pos := length (content f)\<rparr>)"
  by (simp add: fseek_end_def io_next_ok)

lemma ftell_ok: "io f = [] \<Longrightarrow> ftell f = (int (pos f), f)"
  by (simp add: ftell_def io_next_ok)

lemma fwrite1_ok:
  "io f = [] \<Longrightarrow> buf \<noteq> [] \<Longrightarrow>
   fwrite1 buf f = (1, f\<lparr>content := write_at (content f) (pos f) buf,
                          pos := pos f + length buf\<rparr>)"
  by (simp add: fwrite1_def io_next_ok)

lemma fread1_ok:
  "io f = [] \<Longrightarrow> 0 < n \<Longrightarrow> pos f + n \<le> length (content f) \<Longrightarrow>
   fread1 n f = (1, take n (drop (pos f) (content f)), f\<lparr>pos := pos f + n\<rparr>)"
  by (simp add: fread1_def io_next_ok)

lemma write_at_end: "write_at c (length c) buf = c @ buf"
  by (simp add: write_at_def)

lemma length_write_at:
  "p + length buf \<le> length c \<Longrightarrow> length (write_at c p buf) = length c"
  by (simp add: write_at_def)

lemma drop_write_at:
  "p + length buf \<le> q \<Longrightarrow> p + length buf \<le> length c \<Longrightarrow> drop q (write_at c p buf) = drop q c"
  by (simp add: write_at_def)

lemma length_obj_bytes: "length (obj_bytes n r) = n"
  by (simp add: obj_bytes_def)

lemma obj_bytes_nonempty: "0 < n \<Longrightarrow> obj_bytes n r \<noteq> []"
  using length_obj_bytes [of n r] by auto

lemma write_image_append:
  assumes "io (cfile s) = []" and "b \<noteq> []" and "get3 (offset (metadata s ! idx)) ORIG_RES = 0"
  shows "write_image b idx s =
     (ERR_NONE,
      s\<lparr>cfile := (cfile s)\<lparr>pos := length (content (cfile s)) + length b,
                            content := content (cfile s) @ b\<rparr>,
        metadata := (metadata s)[idx := (metadata s ! idx)
           \<lparr>offset := set3 (offset (metadata s ! idx)) ORIG_RES
                        (word_of_nat (length (content (cfile s)))),
            size_md := set3 (size_md (metadata s ! idx)) ORIG_RES (word_of_nat (length b))\<rparr>]\<rparr>)"
  using assms
  by (simp add: write_image_def fseek_end_ok ftell_ok fwrite1_ok write_at_end Let_def)

lemma write_image_skip:
  "get3 (offset (metadata s ! idx)) ORIG_RES \<noteq> 0 \<Longrightarrow> write_image b idx s = (ERR_NONE, s)"
  by (simp add: write_image_def)

lemma whm_ok:
  assumes "io (cfile s) = []" and "0 < sizeof_header P" and "0 < sizeof_metadata P"
  shows "write_header_and_metadata P idx s =
     (ERR_NONE,
      s\<lparr>header := (header s)\<lparr>version := version (header s) + 1\<rparr>,
        cfile := (cfile s)
          \<lparr>pos := sizeof_header P + idx * sizeof_metadata P + sizeof_metadata P,
           content :=
             write_at
               (write_at (content (cfile s)) 0
                  (obj_bytes (sizeof_header P)
                     (header_bytes P ((header s)\<lparr>version := version (header s) + 1\<rparr>))))
               (sizeof_header P + idx * sizeof_metadata P)
               (obj_bytes (sizeof_metadata P) (metadata_bytes P (metadata s ! idx)))\<rparr>\<rparr>)"
  using assms
  by (simp add: write_header_and_metadata_def Let_def fseek_set_nat fseek_set_ok fwrite1_ok
        obj_bytes_nonempty length_obj_bytes del: of_nat_add of_nat_mult)

subsection \<open>What deduplication leaves in the target\<close>

lemma dedup_loop_unique:
  "index < length md \<Longrightarrow>
   (\<forall>j. i \<le> j \<and> j < n \<and> j \<noteq> index \<and> is_valid (md ! j) \<noteq> 0 \<longrightarrow>
        img_id (md ! j) \<noteq> img_id (md ! index)) \<Longrightarrow>
   fst (dedup_loop md index n i) = ERR_NONE"
proof (induction "n - i" arbitrary: i md)
  case 0
  then show ?case by (simp add: dedup_loop_done)
next
  case (Suc d)
  then have lt: "i < n" by simp
  have d: "d = n - Suc i" using Suc.hyps(2) by simp
  let ?md' = "md[index := copy_res (md ! i) (md ! index)]"
  have r1: "fst (dedup_loop ?md' index n (Suc i)) = ERR_NONE"
  proof (rule Suc.hyps(1) [OF d])
    show "index < length ?md'" using Suc.prems(1) by simp
    show "\<forall>j. Suc i \<le> j \<and> j < n \<and> j \<noteq> index \<and> is_valid (?md' ! j) \<noteq> 0 \<longrightarrow>
            img_id (?md' ! j) \<noteq> img_id (?md' ! index)"
      using Suc.prems by (auto simp: copy_res_eq)
  qed
  have r2: "fst (dedup_loop md index n (Suc i)) = ERR_NONE"
    using Suc.prems by (intro Suc.hyps(1) [OF d]) auto
  have "i \<noteq> index \<and> is_valid (md ! i) \<noteq> 0 \<longrightarrow> img_id (md ! i) \<noteq> img_id (md ! index)"
    using Suc.prems(2) lt by auto
  then show ?case by (auto simp: dedup_loop_step [OF lt] r1 r2)
qed

lemma dedup_loop_result:
  "index < length md \<Longrightarrow> fst (dedup_loop md index n i) = ERR_NONE \<Longrightarrow>
   \<exists>ofs szs. snd (dedup_loop md index n i)
            = md[index := (md ! index)\<lparr>offset := ofs, size_md := szs\<rparr>] \<and>
     ((ofs = offset (md ! index) \<and> szs = size_md (md ! index) \<and>
       (\<forall>j. i \<le> j \<and> j < n \<and> j \<noteq> index \<and> is_valid (md ! j) \<noteq> 0 \<longrightarrow>
            SHA (md ! j) \<noteq> SHA (md ! index))) \<or>
      (\<exists>j. i \<le> j \<and> j < n \<and> j \<noteq> index \<and> is_valid (md ! j) \<noteq> 0 \<and>
           SHA (md ! j) = SHA (md ! index) \<and> ofs = offset (md ! j) \<and> szs = size_md (md ! j)))"
proof (induction "n - i" arbitrary: i md)
  case 0
  then have "snd (dedup_loop md index n i) = md" by (simp add: dedup_loop_done)
  then show ?case
    using "0.hyps"
    by (intro exI [of _ "offset (md ! index)"] exI [of _ "size_md (md ! index)"]) auto
next
  case (Suc d)
  then have lt: "i < n" by simp
  have d: "d = n - Suc i" using Suc.hyps(2) by simp
  let ?md' = "md[index := copy_res (md ! i) (md ! index)]"
  consider (skip) "\<not> (i \<noteq> index \<and> is_valid (md ! i) \<noteq> 0)"
    | (clash) "i \<noteq> index" "is_valid (md ! i) \<noteq> 0" "img_id (md ! i) = img_id (md ! index)"
    | (same) "i \<noteq> index" "is_valid (md ! i) \<noteq> 0" "img_id (md ! i) \<noteq> img_id (md ! index)"
        "SHA (md ! i) = SHA (md ! index)"
    | (other) "i \<noteq> index" "is_valid (md ! i) \<noteq> 0" "img_id (md ! i) \<noteq> img_id (md ! index)"
        "SHA (md ! i) \<noteq> SHA (md ! index)"
    by blast
  then show ?case
  proof cases
    case skip
    then have eq: "dedup_loop md index n i = dedup_loop md index n (Suc i)"
      by (auto simp: dedup_loop_step [OF lt])
    obtain ofs szs where
      s: "snd (dedup_loop md index n (Suc i)) = md[index := (md ! index)\<lparr>offset := ofs, size_md := szs\<rparr>]"
      and q: "(ofs = offset (md ! index) \<and> szs = size_md (md ! index) \<and>
         (\<forall>j. Suc i \<le> j \<and> j < n \<and> j \<noteq> index \<and> is_valid (md ! j) \<noteq> 0 \<longrightarrow>
              SHA (md ! j) \<noteq> SHA (md ! index))) \<or>
        (\<exists>j. Suc i \<le> j \<and> j < n \<and> j \<noteq> index \<and> is_valid (md ! j) \<noteq> 0 \<and>
             SHA (md ! j) = SHA (md ! index) \<and> ofs = offset (md ! j) \<and> szs = size_md (md ! j))"
      using Suc.hyps(1) [OF d Suc.prems(1)] Suc.prems(2) eq by auto
    have "\<forall>j. i \<le> j \<and> j \<noteq> index \<and> is_valid (md ! j) \<noteq> 0 \<longrightarrow> Suc i \<le> j"
      using skip by (metis Suc_leI le_neq_implies_less)
    then show ?thesis using s q unfolding eq by (metis Suc_leD)
  next
    case clash
    then have "fst (dedup_loop md index n i) = ERR_DUPLICATE_ID"
      by (simp add: dedup_loop_step [OF lt])
    then show ?thesis using Suc.prems(2) by simp
  next
    case same
    then have eq: "dedup_loop md index n i = dedup_loop ?md' index n (Suc i)"
      by (simp add: dedup_loop_step [OF lt])
    have len: "index < length ?md'" using Suc.prems(1) by simp
    have at: "?md' ! index = (md ! index)\<lparr>offset := offset (md ! i), size_md := size_md (md ! i)\<rparr>"
      using Suc.prems(1) by (simp add: copy_res_eq)
    have other: "\<And>j. j \<noteq> index \<Longrightarrow> ?md' ! j = md ! j" by simp
    obtain ofs szs where
      s: "snd (dedup_loop ?md' index n (Suc i))
            = ?md'[index := (?md' ! index)\<lparr>offset := ofs, size_md := szs\<rparr>]"
      and q: "(ofs = offset (?md' ! index) \<and> szs = size_md (?md' ! index) \<and>
         (\<forall>j. Suc i \<le> j \<and> j < n \<and> j \<noteq> index \<and> is_valid (?md' ! j) \<noteq> 0 \<longrightarrow>
              SHA (?md' ! j) \<noteq> SHA (?md' ! index))) \<or>
        (\<exists>j. Suc i \<le> j \<and> j < n \<and> j \<noteq> index \<and> is_valid (?md' ! j) \<noteq> 0 \<and>
             SHA (?md' ! j) = SHA (?md' ! index) \<and> ofs = offset (?md' ! j) \<and>
             szs = size_md (?md' ! j))"
      using Suc.hyps(1) [OF d len] Suc.prems(2) eq by auto
    have s': "snd (dedup_loop md index n i) = md[index := (md ! index)\<lparr>offset := ofs, size_md := szs\<rparr>]"
      unfolding eq s at by simp
    have "\<exists>j. i \<le> j \<and> j < n \<and> j \<noteq> index \<and> is_valid (md ! j) \<noteq> 0 \<and>
             SHA (md ! j) = SHA (md ! index) \<and> ofs = offset (md ! j) \<and> szs = size_md (md ! j)"
      using q
    proof
      assume "ofs = offset (?md' ! index) \<and> szs = size_md (?md' ! index) \<and>
         (\<forall>j. Suc i \<le> j \<and> j < n \<and> j \<noteq> index \<and> is_valid (?md' ! j) \<noteq> 0 \<longrightarrow>
              SHA (?md' ! j) \<noteq> SHA (?md' ! index))"
      then have "ofs = offset (md ! i)" and "szs = size_md (md ! i)" by (simp_all add: at)
      then show ?thesis using same lt by (intro exI [of _ i]) simp
    next
      assume "\<exists>j. Suc i \<le> j \<and> j < n \<and> j \<noteq> index \<and> is_valid (?md' ! j) \<noteq> 0 \<and>
             SHA (?md' ! j) = SHA (?md' ! index) \<and> ofs = offset (?md' ! j) \<and>
             szs = size_md (?md' ! j)"
      then obtain j where j: "Suc i \<le> j" "j < n" "j \<noteq> index" "is_valid (?md' ! j) \<noteq> 0"
        "SHA (?md' ! j) = SHA (?md' ! index)" "ofs = offset (?md' ! j)" "szs = size_md (?md' ! j)"
        by blast
      then show ?thesis using other [OF j(3)] at by (intro exI [of _ j]) simp
    qed
    then show ?thesis using s' by blast
  next
    case other
    then have eq: "dedup_loop md index n i = dedup_loop md index n (Suc i)"
      by (simp add: dedup_loop_step [OF lt])
    obtain ofs szs where
      s: "snd (dedup_loop md index n (Suc i)) = md[index := (md ! index)\<lparr>offset := ofs, size_md := szs\<rparr>]"
      and q: "(ofs = offset (md ! index) \<and> szs = size_md (md ! index) \<and>
         (\<forall>j. Suc i \<le> j \<and> j < n \<and> j \<noteq> index \<and> is_valid (md ! j) \<noteq> 0 \<longrightarrow>
              SHA (md ! j) \<noteq> SHA (md ! index))) \<or>
        (\<exists>j. Suc i \<le> j \<and> j < n \<and> j \<noteq> index \<and> is_valid (md ! j) \<noteq> 0 \<and>
             SHA (md ! j) = SHA (md ! index) \<and> ofs = offset (md ! j) \<and> szs = size_md (md ! j))"
      using Suc.hyps(1) [OF d Suc.prems(1)] Suc.prems(2) eq by auto
    have "\<forall>j. i \<le> j \<and> SHA (md ! j) = SHA (md ! index) \<longrightarrow> Suc i \<le> j"
      using other(4) by (metis Suc_leI le_neq_implies_less)
    then show ?thesis using s q unfolding eq by (metis Suc_leD)
  qed
qed

lemma dedup_succeeds:
  assumes "unat k < length md" and "k < max_files hdr" and "is_valid (md ! unat k) \<noteq> 0"
    and "\<forall>j. j < unat (max_files hdr) \<and> j \<noteq> unat k \<and> is_valid (md ! j) \<noteq> 0 \<longrightarrow>
             img_id (md ! j) \<noteq> img_id (md ! unat k)"
  shows "fst (do_name_and_content_dedup hdr md k) = ERR_NONE"
proof -
  let ?md1 = "md[unat k := (md ! unat k)\<lparr>offset := set3 (offset (md ! unat k)) ORIG_RES 0\<rparr>]"
  have "fst (dedup_loop ?md1 (unat k) (unat (max_files hdr)) 0) = ERR_NONE"
    using assms(1,4) by (intro dedup_loop_unique) auto
  moreover have "\<not> max_files hdr \<le> k" using assms(2) by simp
  ultimately show ?thesis
    using assms(3) by (simp add: do_name_and_content_dedup_def Let_def)
qed

lemma dedup_result:
  assumes "unat k < length md" and "k < max_files hdr" and "is_valid (md ! unat k) \<noteq> 0"
    and "do_name_and_content_dedup hdr md k = (ERR_NONE, md')"
  shows "\<exists>ofs szs.
     md' = md[unat k := (md ! unat k)\<lparr>offset := ofs, size_md := szs\<rparr>] \<and>
     ((ofs = set3 (offset (md ! unat k)) ORIG_RES 0 \<and> szs = size_md (md ! unat k) \<and>
       (\<forall>j. j < unat (max_files hdr) \<and> j \<noteq> unat k \<and> is_valid (md ! j) \<noteq> 0 \<longrightarrow>
            SHA (md ! j) \<noteq> SHA (md ! unat k))) \<or>
      (\<exists>j. j < unat (max_files hdr) \<and> j \<noteq> unat k \<and> is_valid (md ! j) \<noteq> 0 \<and>
           SHA (md ! j) = SHA (md ! unat k) \<and> ofs = offset (md ! j) \<and> szs = size_md (md ! j)))"
proof -
  let ?t = "(md ! unat k)\<lparr>offset := set3 (offset (md ! unat k)) ORIG_RES 0\<rparr>"
  let ?md1 = "md[unat k := ?t]"
  have nk: "\<not> max_files hdr \<le> k" using assms(2) by simp
  have run: "dedup_loop ?md1 (unat k) (unat (max_files hdr)) 0 = (ERR_NONE, md')"
    using assms(3,4) nk by (simp add: do_name_and_content_dedup_def Let_def)
  have len: "unat k < length ?md1" using assms(1) by simp
  have at: "?md1 ! unat k = ?t" using assms(1) by simp
  have other: "\<And>j. j \<noteq> unat k \<Longrightarrow> ?md1 ! j = md ! j" by simp
  obtain ofs szs where
    s: "md' = ?md1[unat k := (?md1 ! unat k)\<lparr>offset := ofs, size_md := szs\<rparr>]"
    and q: "(ofs = offset (?md1 ! unat k) \<and> szs = size_md (?md1 ! unat k) \<and>
       (\<forall>j. 0 \<le> j \<and> j < unat (max_files hdr) \<and> j \<noteq> unat k \<and> is_valid (?md1 ! j) \<noteq> 0 \<longrightarrow>
            SHA (?md1 ! j) \<noteq> SHA (?md1 ! unat k))) \<or>
      (\<exists>j. 0 \<le> j \<and> j < unat (max_files hdr) \<and> j \<noteq> unat k \<and> is_valid (?md1 ! j) \<noteq> 0 \<and>
           SHA (?md1 ! j) = SHA (?md1 ! unat k) \<and> ofs = offset (?md1 ! j) \<and>
           szs = size_md (?md1 ! j))"
    using dedup_loop_result [OF len, of "unat (max_files hdr)" 0] run by auto
  have s': "md' = md[unat k := (md ! unat k)\<lparr>offset := ofs, size_md := szs\<rparr>]"
    unfolding s at by simp
  have "(ofs = set3 (offset (md ! unat k)) ORIG_RES 0 \<and> szs = size_md (md ! unat k) \<and>
       (\<forall>j. j < unat (max_files hdr) \<and> j \<noteq> unat k \<and> is_valid (md ! j) \<noteq> 0 \<longrightarrow>
            SHA (md ! j) \<noteq> SHA (md ! unat k))) \<or>
      (\<exists>j. j < unat (max_files hdr) \<and> j \<noteq> unat k \<and> is_valid (md ! j) \<noteq> 0 \<and>
           SHA (md ! j) = SHA (md ! unat k) \<and> ofs = offset (md ! j) \<and> szs = size_md (md ! j))"
    using q
  proof
    assume a: "ofs = offset (?md1 ! unat k) \<and> szs = size_md (?md1 ! unat k) \<and>
       (\<forall>j. 0 \<le> j \<and> j < unat (max_files hdr) \<and> j \<noteq> unat k \<and> is_valid (?md1 ! j) \<noteq> 0 \<longrightarrow>
            SHA (?md1 ! j) \<noteq> SHA (?md1 ! unat k))"
    then have "ofs = set3 (offset (md ! unat k)) ORIG_RES 0" and "szs = size_md (md ! unat k)"
      by (simp_all add: at)
    moreover have "\<forall>j. j < unat (max_files hdr) \<and> j \<noteq> unat k \<and> is_valid (md ! j) \<noteq> 0 \<longrightarrow>
            SHA (md ! j) \<noteq> SHA (md ! unat k)"
    proof (intro allI impI)
      fix j assume j: "j < unat (max_files hdr) \<and> j \<noteq> unat k \<and> is_valid (md ! j) \<noteq> 0"
      then have "SHA (?md1 ! j) \<noteq> SHA (?md1 ! unat k)" using a other [of j] by simp
      then show "SHA (md ! j) \<noteq> SHA (md ! unat k)" using j other [of j] at by simp
    qed
    ultimately show ?thesis by blast
  next
    assume "\<exists>j. 0 \<le> j \<and> j < unat (max_files hdr) \<and> j \<noteq> unat k \<and> is_valid (?md1 ! j) \<noteq> 0 \<and>
           SHA (?md1 ! j) = SHA (?md1 ! unat k) \<and> ofs = offset (?md1 ! j) \<and>
           szs = size_md (?md1 ! j)"
    then obtain j where j: "j < unat (max_files hdr)" "j \<noteq> unat k" "is_valid (?md1 ! j) \<noteq> 0"
      "SHA (?md1 ! j) = SHA (?md1 ! unat k)" "ofs = offset (?md1 ! j)" "szs = size_md (?md1 ! j)"
      by blast
    have "j < unat (max_files hdr) \<and> j \<noteq> unat k \<and> is_valid (md ! j) \<noteq> 0 \<and>
           SHA (md ! j) = SHA (md ! unat k) \<and> ofs = offset (md ! j) \<and> szs = size_md (md ! j)"
      using j other [OF j(2)] at by simp
    then show ?thesis by blast
  qed
  then show ?thesis using s' by blast
qed

lemma dedup_none_ids:
  assumes "unat k < length md" and "k < max_files hdr" and "is_valid (md ! unat k) \<noteq> 0"
    and "fst (do_name_and_content_dedup hdr md k) = ERR_NONE"
    and "j < unat (max_files hdr)" and "j \<noteq> unat k" and "is_valid (md ! j) \<noteq> 0"
  shows "img_id (md ! j) \<noteq> img_id (md ! unat k)"
  using dedup_duplicate [OF assms(1,2,3,5,6,7)] assms(4) by auto

lemma do_insert_at:
  assumes "b \<noteq> []" and "nb_files (header s) < max_files (header s)"
    and "free_loop (metadata s) (unat (max_files (header s))) 0 = int k"
    and "k < unat (max_files (header s))"
  shows "do_insert P b i s =
     (case get_resolution P b of (err, height, width) \<Rightarrow>
         if err \<noteq> ERR_NONE
         then (err, s\<lparr>metadata := (metadata s)[k := zero_metadata
                          \<lparr>SHA := SHA256 P b, img_id := take MAX_IMG_ID i, is_valid := NON_EMPTY\<rparr>],
                       header := (header s)\<lparr>nb_files := nb_files (header s) + 1\<rparr>\<rparr>)
         else
           let s2 = s\<lparr>metadata := (metadata s)[k := new_entry P b i width height
                                                      (Arr3 0 0 0) (Arr3 0 0 0)],
                      header := (header s)\<lparr>nb_files := nb_files (header s) + 1\<rparr>\<rparr>
           in
           (case do_name_and_content_dedup (header s2) (metadata s2) (word_of_nat k) of
              (err, md') \<Rightarrow>
                if err \<noteq> ERR_NONE then
                  (if err = ERR_DUPLICATE_ID
                   then (err, s2\<lparr>metadata := md'[k := zero_metadata],
                                 header := (header s2)\<lparr>nb_files := nb_files (header s2) - 1\<rparr>\<rparr>)
                   else (err, s2\<lparr>metadata := md'\<rparr>))
                else
                  (case write_image b k (s2\<lparr>metadata := md'\<rparr>) of
                     (err, s3) \<Rightarrow>
                       if err \<noteq> ERR_NONE then (err, s3)
                       else write_header_and_metadata P k s3)))"
proof -
  have k: "unat (word_of_nat k :: 32 word) = k" using assms(4) by (rule unat_index)
  have nf: "\<not> max_files (header s) \<le> nb_files (header s)" using assms(2) by simp
  have e: "\<And>w h. (metadata s)[k := ((metadata s)[k := zero_metadata
               \<lparr>SHA := SHA256 P b, img_id := take MAX_IMG_ID i, is_valid := NON_EMPTY\<rparr>] ! k)
                 \<lparr>orig_res := (w, h)\<rparr>]
           = (metadata s)[k := new_entry P b i w h (Arr3 0 0 0) (Arr3 0 0 0)]"
    by (cases "k < length (metadata s)")
       (simp_all add: new_entry_def zero_metadata_def list_update_beyond)
  show ?thesis
    using assms(1) nf by (simp add: do_insert_def assms(3) k e Let_def cong: if_cong)
qed

lemma do_insert_form:
  assumes ok: "do_insert P b i s = (ERR_NONE, s1)"
    and tab: "length (metadata s) = unat (max_files (header s))"
    and io: "io (cfile s) = []" and hs: "0 < sizeof_header P" and ms: "0 < sizeof_metadata P"
  shows "\<exists>k h w ofs0 szs0 H M.
    k < length (metadata s) \<and> is_valid (metadata s ! k) = 0 \<and> b \<noteq> [] \<and>
    get_resolution P b = (ERR_NONE, h, w) \<and>
    (\<forall>j. j < length (metadata s) \<and> j \<noteq> k \<and> is_valid (metadata s ! j) \<noteq> 0 \<longrightarrow>
         img_id (metadata s ! j) \<noteq> take MAX_IMG_ID i) \<and>
    ((ofs0 = Arr3 0 0 0 \<and> szs0 = Arr3 0 0 0 \<and>
      (\<forall>j. j < length (metadata s) \<and> j \<noteq> k \<and> is_valid (metadata s ! j) \<noteq> 0 \<longrightarrow>
           SHA (metadata s ! j) \<noteq> SHA256 P b)) \<or>
     (\<exists>j. j < length (metadata s) \<and> j \<noteq> k \<and> is_valid (metadata s ! j) \<noteq> 0 \<and>
          SHA (metadata s ! j) = SHA256 P b \<and>
          ofs0 = offset (metadata s ! j) \<and> szs0 = size_md (metadata s ! j))) \<and>
    length H = sizeof_header P \<and> length M = sizeof_metadata P \<and>
    content (cfile s1) =
      write_at (write_at (if get3 ofs0 ORIG_RES = 0 then content (cfile s) @ b
                          else content (cfile s)) 0 H)
        (sizeof_header P + k * sizeof_metadata P) M \<and>
    io (cfile s1) = [] \<and>
    header s1 = (header s)\<lparr>nb_files := nb_files (header s) + 1,
                             version := version (header s) + 1\<rparr> \<and>
    metadata s1 = (metadata s)[k := new_entry P b i w h
       (if get3 ofs0 ORIG_RES = 0
        then set3 ofs0 ORIG_RES (word_of_nat (length (content (cfile s)))) else ofs0)
       (if get3 ofs0 ORIG_RES = 0
        then set3 szs0 ORIG_RES (word_of_nat (length b)) else szs0)]"
proof -
  let ?n = "unat (max_files (header s))"
  have b: "b \<noteq> []" using ok by (auto simp: do_insert_def split: if_splits)
  have nf: "nb_files (header s) < max_files (header s)"
    using ok b by (auto simp: do_insert_def split: if_splits)
  have fl: "free_loop (metadata s) ?n 0 \<noteq> - 1"
    using ok b nf by (auto simp: do_insert_def Let_def split: if_splits)
  obtain k where k: "free_loop (metadata s) ?n 0 = int k" "k < ?n" "is_valid (metadata s ! k) = 0"
    using free_loop_result [of "metadata s" ?n 0] fl by auto
  have klen: "k < length (metadata s)" using k(2) tab by simp
  have uk: "unat (word_of_nat k :: 32 word) = k" using k(2) by (rule unat_index)
  note st = do_insert_at [OF b nf k(1) k(2), of P i]
  obtain e h w where gr: "get_resolution P b = (e, h, w)"
    by (cases "get_resolution P b")
  have e: "e = ERR_NONE" using ok st gr by (auto split: if_splits)
  let ?hdr = "(header s)\<lparr>nb_files := nb_files (header s) + 1\<rparr>"
  let ?md2 = "(metadata s)[k := new_entry P b i w h (Arr3 0 0 0) (Arr3 0 0 0)]"
  obtain e2 md' where dd: "do_name_and_content_dedup ?hdr ?md2 (word_of_nat k) = (e2, md')"
    by (cases "do_name_and_content_dedup ?hdr ?md2 (word_of_nat k)")
  have e2: "e2 = ERR_NONE"
    using ok st gr e dd by (auto simp: Let_def split: if_splits)
  have d1: "unat (word_of_nat k :: 32 word) < length ?md2" using klen uk by simp
  have d2: "(word_of_nat k :: 32 word) < max_files ?hdr" using k(2) by (simp add: index_less)
  have at: "?md2 ! k = new_entry P b i w h (Arr3 0 0 0) (Arr3 0 0 0)" using klen by simp
  have d3: "is_valid (?md2 ! unat (word_of_nat k :: 32 word)) \<noteq> 0"
    unfolding uk at by (simp add: new_entry_def)
  have other: "\<And>j. j \<noteq> k \<Longrightarrow> ?md2 ! j = metadata s ! j" by simp
  have ids: "\<forall>j. j < length (metadata s) \<and> j \<noteq> k \<and> is_valid (metadata s ! j) \<noteq> 0 \<longrightarrow>
         img_id (metadata s ! j) \<noteq> take MAX_IMG_ID i"
  proof (intro allI impI)
    fix j assume j: "j < length (metadata s) \<and> j \<noteq> k \<and> is_valid (metadata s ! j) \<noteq> 0"
    have "img_id (?md2 ! j) \<noteq> img_id (?md2 ! unat (word_of_nat k :: 32 word))"
    proof (rule dedup_none_ids [OF d1 d2 d3])
      show "fst (do_name_and_content_dedup ?hdr ?md2 (word_of_nat k)) = ERR_NONE"
        using dd e2 by simp
      show "j < unat (max_files ?hdr)" using j tab by simp
      show "j \<noteq> unat (word_of_nat k :: 32 word)" using j uk by simp
      show "is_valid (?md2 ! j) \<noteq> 0" using j by simp
    qed
    then show "img_id (metadata s ! j) \<noteq> take MAX_IMG_ID i"
      using j other [of j] unfolding uk at by (simp add: new_entry_def)
  qed
  obtain ofs0 szs0 where
    md': "md' = ?md2[unat (word_of_nat k :: 32 word) :=
                  (?md2 ! unat (word_of_nat k :: 32 word))\<lparr>offset := ofs0, size_md := szs0\<rparr>]"
    and q: "(ofs0 = set3 (offset (?md2 ! unat (word_of_nat k :: 32 word))) ORIG_RES 0 \<and>
             szs0 = size_md (?md2 ! unat (word_of_nat k :: 32 word)) \<and>
       (\<forall>j. j < unat (max_files ?hdr) \<and> j \<noteq> unat (word_of_nat k :: 32 word) \<and>
            is_valid (?md2 ! j) \<noteq> 0 \<longrightarrow>
            SHA (?md2 ! j) \<noteq> SHA (?md2 ! unat (word_of_nat k :: 32 word)))) \<or>
      (\<exists>j. j < unat (max_files ?hdr) \<and> j \<noteq> unat (word_of_nat k :: 32 word) \<and>
           is_valid (?md2 ! j) \<noteq> 0 \<and>
           SHA (?md2 ! j) = SHA (?md2 ! unat (word_of_nat k :: 32 word)) \<and>
           ofs0 = offset (?md2 ! j) \<and> szs0 = size_md (?md2 ! j))"
    using dedup_result [OF d1 d2 d3] dd e2 by blast
  have md'': "md' = (metadata s)[k := new_entry P b i w h ofs0 szs0]"
    unfolding md' uk at by (simp add: new_entry_def)
  have q': "(ofs0 = Arr3 0 0 0 \<and> szs0 = Arr3 0 0 0 \<and>
      (\<forall>j. j < length (metadata s) \<and> j \<noteq> k \<and> is_valid (metadata s ! j) \<noteq> 0 \<longrightarrow>
           SHA (metadata s ! j) \<noteq> SHA256 P b)) \<or>
     (\<exists>j. j < length (metadata s) \<and> j \<noteq> k \<and> is_valid (metadata s ! j) \<noteq> 0 \<and>
          SHA (metadata s ! j) = SHA256 P b \<and>
          ofs0 = offset (metadata s ! j) \<and> szs0 = size_md (metadata s ! j))"
    using q
  proof
    assume a: "ofs0 = set3 (offset (?md2 ! unat (word_of_nat k :: 32 word))) ORIG_RES 0 \<and>
             szs0 = size_md (?md2 ! unat (word_of_nat k :: 32 word)) \<and>
       (\<forall>j. j < unat (max_files ?hdr) \<and> j \<noteq> unat (word_of_nat k :: 32 word) \<and>
            is_valid (?md2 ! j) \<noteq> 0 \<longrightarrow>
            SHA (?md2 ! j) \<noteq> SHA (?md2 ! unat (word_of_nat k :: 32 word)))"
    then have "ofs0 = Arr3 0 0 0" and "szs0 = Arr3 0 0 0"
      unfolding uk at by (simp_all add: new_entry_def)
    moreover have "\<forall>j. j < length (metadata s) \<and> j \<noteq> k \<and> is_valid (metadata s ! j) \<noteq> 0 \<longrightarrow>
           SHA (metadata s ! j) \<noteq> SHA256 P b"
    proof (intro allI impI)
      fix j assume j: "j < length (metadata s) \<and> j \<noteq> k \<and> is_valid (metadata s ! j) \<noteq> 0"
      then have "SHA (?md2 ! j) \<noteq> SHA (?md2 ! unat (word_of_nat k :: 32 word))"
        using a tab uk other [of j] by simp
      then show "SHA (metadata s ! j) \<noteq> SHA256 P b"
        using j other [of j] unfolding uk at by (simp add: new_entry_def)
    qed
    ultimately show ?thesis by blast
  next
    assume "\<exists>j. j < unat (max_files ?hdr) \<and> j \<noteq> unat (word_of_nat k :: 32 word) \<and>
           is_valid (?md2 ! j) \<noteq> 0 \<and>
           SHA (?md2 ! j) = SHA (?md2 ! unat (word_of_nat k :: 32 word)) \<and>
           ofs0 = offset (?md2 ! j) \<and> szs0 = size_md (?md2 ! j)"
    then obtain j where j: "j < unat (max_files ?hdr)" "j \<noteq> unat (word_of_nat k :: 32 word)"
      "is_valid (?md2 ! j) \<noteq> 0" "SHA (?md2 ! j) = SHA (?md2 ! unat (word_of_nat k :: 32 word))"
      "ofs0 = offset (?md2 ! j)" "szs0 = size_md (?md2 ! j)"
      by blast
    have jk: "j \<noteq> k" using j(2) uk by simp
    have "j < length (metadata s) \<and> j \<noteq> k \<and> is_valid (metadata s ! j) \<noteq> 0 \<and>
          SHA (metadata s ! j) = SHA256 P b \<and>
          ofs0 = offset (metadata s ! j) \<and> szs0 = size_md (metadata s ! j)"
      using j jk tab other [OF jk] unfolding uk at by (simp add: new_entry_def)
    then show ?thesis by blast
  qed
  let ?s3 = "s\<lparr>header := ?hdr, metadata := md'\<rparr>"
  have run: "(case write_image b k ?s3 of
                (err, s3) \<Rightarrow> if err \<noteq> ERR_NONE then (err, s3)
                              else write_header_and_metadata P k s3) = (ERR_NONE, s1)"
    using ok st gr e dd e2 by (simp add: Let_def)
  have io3: "io (cfile ?s3) = []" using io by simp
  have at3: "metadata ?s3 ! k = new_entry P b i w h ofs0 szs0" using klen md'' by simp
  define H where "H = obj_bytes (sizeof_header P)
     (header_bytes P ((header s)\<lparr>nb_files := nb_files (header s) + 1,
                                 version := version (header s) + 1\<rparr>))"
  have lenH: "length H = sizeof_header P" by (simp add: H_def length_obj_bytes)
  show ?thesis
  proof (cases "get3 ofs0 ORIG_RES = 0")
    case True
    let ?m = "new_entry P b i w h (set3 ofs0 ORIG_RES (word_of_nat (length (content (cfile s)))))
                 (set3 szs0 ORIG_RES (word_of_nat (length b)))"
    define M where "M = obj_bytes (sizeof_metadata P) (metadata_bytes P ?m)"
    have lenM: "length M = sizeof_metadata P" by (simp add: M_def length_obj_bytes)
    have z: "get3 (offset (metadata ?s3 ! k)) ORIG_RES = 0"
      unfolding at3 using True by (simp add: new_entry_def)
    have wi: "write_image b k ?s3 =
      (ERR_NONE,
       s\<lparr>header := ?hdr,
         cfile := (cfile s)\<lparr>pos := length (content (cfile s)) + length b,
                              content := content (cfile s) @ b\<rparr>,
         metadata := (metadata s)[k := ?m]\<rparr>)"
      using write_image_append [OF io3 b z] klen unfolding at3 md''
      by (simp add: new_entry_def)
    have s1: "s1 =
       s\<lparr>header := (header s)\<lparr>nb_files := nb_files (header s) + 1,
                                version := version (header s) + 1\<rparr>,
         cfile := (cfile s)
           \<lparr>pos := sizeof_header P + k * sizeof_metadata P + sizeof_metadata P,
            content := write_at (write_at (content (cfile s) @ b) 0 H)
                         (sizeof_header P + k * sizeof_metadata P) M\<rparr>,
         metadata := (metadata s)[k := ?m]\<rparr>"
      using run klen io unfolding wi
      by (auto simp: whm_ok [OF _ hs ms] H_def M_def)
    show ?thesis
      using klen k(3) b gr e ids q' lenH lenM True io unfolding s1
      by (intro exI [of _ k] exI [of _ h] exI [of _ w] exI [of _ ofs0] exI [of _ szs0]
               exI [of _ H] exI [of _ M]) simp
  next
    case False
    let ?m = "new_entry P b i w h ofs0 szs0"
    define M where "M = obj_bytes (sizeof_metadata P) (metadata_bytes P ?m)"
    have lenM: "length M = sizeof_metadata P" by (simp add: M_def length_obj_bytes)
    have z: "get3 (offset (metadata ?s3 ! k)) ORIG_RES \<noteq> 0"
      unfolding at3 using False by (simp add: new_entry_def)
    have wi: "write_image b k ?s3 = (ERR_NONE, ?s3)"
      using write_image_skip [OF z] .
    have s1: "s1 =
       s\<lparr>header := (header s)\<lparr>nb_files := nb_files (header s) + 1,
                                version := version (header s) + 1\<rparr>,
         cfile := (cfile s)
           \<lparr>pos := sizeof_header P + k * sizeof_metadata P + sizeof_metadata P,
            content := write_at (write_at (content (cfile s)) 0 H)
                         (sizeof_header P + k * sizeof_metadata P) M\<rparr>,
         metadata := (metadata s)[k := ?m]\<rparr>"
      using run klen io unfolding wi
      by (auto simp: whm_ok [OF _ hs ms] H_def M_def md'')
    show ?thesis
      using klen k(3) b gr e ids q' lenH lenM False io unfolding s1
      by (intro exI [of _ k] exI [of _ h] exI [of _ w] exI [of _ ofs0] exI [of _ szs0]
               exI [of _ H] exI [of _ M]) simp
  qed
qed

lemma get3_set3: "r < NB_RES \<Longrightarrow> get3 (set3 a r v) r = v"
  by (cases a) auto

lemma write_image_ok:
  assumes "io (cfile s) = []" and "b \<noteq> []"
  shows "fst (write_image b idx s) = ERR_NONE \<and> io (cfile (snd (write_image b idx s))) = []"
proof (cases "get3 (offset (metadata s ! idx)) ORIG_RES = 0")
  case True
  then show ?thesis using assms by (simp add: write_image_append)
next
  case False
  then show ?thesis using assms by (simp add: write_image_skip)
qed

lemma do_insert_succeeds:
  assumes "b \<noteq> []" and "nb_files (header s) < max_files (header s)" and "first_free s k"
    and "fst (get_resolution P b) = ERR_NONE"
    and "\<forall>j. j < unat (max_files (header s)) \<and> j \<noteq> k \<and> is_valid (metadata s ! j) \<noteq> 0 \<longrightarrow>
             img_id (metadata s ! j) \<noteq> take MAX_IMG_ID i"
    and "io (cfile s) = []" and "0 < sizeof_header P" and "0 < sizeof_metadata P"
  shows "fst (do_insert P b i s) = ERR_NONE"
proof -
  have klen: "k < length (metadata s)" and kmax: "k < unat (max_files (header s))"
    using assms(3) by (simp_all add: first_free_def)
  have uk: "unat (word_of_nat k :: 32 word) = k" using kmax by (rule unat_index)
  note st = do_insert_at [OF assms(1,2) first_free_loop [OF assms(3)] kmax, of P i]
  obtain h w where gr: "get_resolution P b = (ERR_NONE, h, w)"
    using assms(4) by (cases "get_resolution P b") auto
  let ?hdr = "(header s)\<lparr>nb_files := nb_files (header s) + 1\<rparr>"
  let ?md2 = "(metadata s)[k := new_entry P b i w h (Arr3 0 0 0) (Arr3 0 0 0)]"
  have at: "?md2 ! k = new_entry P b i w h (Arr3 0 0 0) (Arr3 0 0 0)" using klen by simp
  have "fst (do_name_and_content_dedup ?hdr ?md2 (word_of_nat k)) = ERR_NONE"
  proof (rule dedup_succeeds)
    show "unat (word_of_nat k :: 32 word) < length ?md2" using klen uk by simp
    show "(word_of_nat k :: 32 word) < max_files ?hdr" using kmax by (simp add: index_less)
    show "is_valid (?md2 ! unat (word_of_nat k :: 32 word)) \<noteq> 0"
      unfolding uk at by (simp add: new_entry_def)
    show "\<forall>j. j < unat (max_files ?hdr) \<and> j \<noteq> unat (word_of_nat k :: 32 word) \<and>
              is_valid (?md2 ! j) \<noteq> 0 \<longrightarrow>
              img_id (?md2 ! j) \<noteq> img_id (?md2 ! unat (word_of_nat k :: 32 word))"
      unfolding uk at using assms(5) by (auto simp: new_entry_def)
  qed
  then obtain md' where dd: "do_name_and_content_dedup ?hdr ?md2 (word_of_nat k) = (ERR_NONE, md')"
    by (cases "do_name_and_content_dedup ?hdr ?md2 (word_of_nat k)") auto
  let ?s3 = "s\<lparr>header := ?hdr, metadata := md'\<rparr>"
  have io3: "io (cfile ?s3) = []" using assms(6) by simp
  obtain s4 where wi: "write_image b k ?s3 = (ERR_NONE, s4)" and io4: "io (cfile s4) = []"
    using write_image_ok [OF io3 assms(1), of k] by (cases "write_image b k ?s3") auto
  have "fst (write_header_and_metadata P k s4) = ERR_NONE"
    by (simp add: whm_ok [OF io4 assms(7,8)])
  then show ?thesis using gr dd wi by (simp add: st Let_def)
qed

lemma sint_small: "unat (x :: 64 word) < 2 ^ 63 \<Longrightarrow> sint x = int (unat x)"
proof -
  assume a: "unat x < 2 ^ 63"
  have u: "uint x = int (unat x)" by (rule uint_nat)
  have "int (unat x) < int (2 ^ 63)" using a by (simp only: of_nat_less_iff)
  then have 1: "int (unat x) < 2 ^ 63" by simp
  have 2: "- (2 ^ 63) \<le> int (unat x)" by (rule order_trans [of _ 0]) simp_all
  have "signed_take_bit 63 (int (unat x)) = int (unat x)"
    using 2 1 by (rule signed_take_bit_int_eq_self)
  then show ?thesis unfolding sint_uint u by simp
qed

subsection \<open>Reading the original of a stored image\<close>

lemma find_pos_loop_step:
  "i < n \<Longrightarrow> find_pos_loop md n x i =
     (if is_valid (md ! i) = NON_EMPTY \<and> img_id (md ! i) = x then int i
      else find_pos_loop md n x (Suc i))"
  by (subst find_pos_loop.simps) simp

lemma find_pos_loop_first:
  "i \<le> k \<Longrightarrow> k < n \<Longrightarrow> is_valid (md ! k) = NON_EMPTY \<Longrightarrow> img_id (md ! k) = x \<Longrightarrow>
   (\<forall>j. i \<le> j \<and> j < k \<longrightarrow> \<not> (is_valid (md ! j) = NON_EMPTY \<and> img_id (md ! j) = x)) \<Longrightarrow>
   find_pos_loop md n x i = int k"
proof (induction "k - i" arbitrary: i)
  case 0
  then have "i = k" by simp
  then show ?case using "0.prems" by (simp add: find_pos_loop_step)
next
  case (Suc d)
  then have lt: "i < k" by simp
  then have "i < n" using Suc.prems by simp
  moreover have "\<not> (is_valid (md ! i) = NON_EMPTY \<and> img_id (md ! i) = x)"
    using Suc.prems lt by simp
  moreover have "find_pos_loop md n x (Suc i) = int k"
    using Suc.hyps(2) Suc.prems lt by (intro Suc.hyps(1)) auto
  ultimately show ?case by (auto simp: find_pos_loop_step)
qed

lemma do_read_orig:
  assumes "k < unat (max_files (header s))"
    and "is_valid (metadata s ! k) = NON_EMPTY" and "img_id (metadata s ! k) = x"
    and "\<forall>j. j < k \<longrightarrow> \<not> (is_valid (metadata s ! j) = NON_EMPTY \<and> img_id (metadata s ! j) = x)"
    and "io (cfile s) = []"
    and "0 < unat (get3 (size_md (metadata s ! k)) ORIG_RES)"
    and "unat (get3 (offset (metadata s ! k)) ORIG_RES)
           + unat (get3 (size_md (metadata s ! k)) ORIG_RES) \<le> length (content (cfile s))"
    and "length (content (cfile s)) < 2 ^ 63"
  shows "\<exists>s'. do_read P x (int ORIG_RES) s =
           (ERR_NONE,
            take (unat (get3 (size_md (metadata s ! k)) ORIG_RES))
              (drop (unat (get3 (offset (metadata s ! k)) ORIG_RES)) (content (cfile s))),
            s')"
proof -
  have f: "find_pos_by_id s x = int k"
    unfolding find_pos_by_id_def using assms(1-4) by (intro find_pos_loop_first) auto
  have "unat (get3 (offset (metadata s ! k)) ORIG_RES) < 2 ^ 63"
    using assms(7,8) by simp
  then have si: "sint (get3 (offset (metadata s ! k)) ORIG_RES)
                   = int (unat (get3 (offset (metadata s ! k)) ORIG_RES))"
    by (rule sint_small)
  have fs: "fseek_set (cfile s) (sint (get3 (offset (metadata s ! k)) ORIG_RES))
              = (True, (cfile s)\<lparr>pos := unat (get3 (offset (metadata s ! k)) ORIG_RES)\<rparr>)"
    unfolding si using assms(5) by (rule fseek_set_nat)
  show ?thesis
    using assms(5,6,7)
    by (simp add: do_read_def f Let_def fs fread1_ok)
qed

subsection \<open>What a successful insert leaves behind\<close>

lemma persist_content:
  assumes "length H = hs" and "length M = ms" and "hs + k * ms + ms \<le> p" and "p \<le> length c"
  shows "length (write_at (write_at c 0 H) (hs + k * ms) M) = length c"
    and "p \<le> q \<Longrightarrow> drop q (write_at (write_at c 0 H) (hs + k * ms) M) = drop q c"
proof -
  have l1: "length (write_at c 0 H) = length c"
    using assms by (intro length_write_at) simp
  show "length (write_at (write_at c 0 H) (hs + k * ms) M) = length c"
    using assms l1 by (simp add: length_write_at)
  assume q: "p \<le> q"
  have "drop q (write_at (write_at c 0 H) (hs + k * ms) M) = drop q (write_at c 0 H)"
    using assms l1 q by (intro drop_write_at) simp_all
  also have "\<dots> = drop q c" using assms q by (intro drop_write_at) simp_all
  finally show "drop q (write_at (write_at c 0 H) (hs + k * ms) M) = drop q c" .
qed

lemma entry_in_prefix:
  assumes "k < n"
  shows "hs + k * ms + ms \<le> hs + n * (ms :: nat)"
proof -
  have "Suc k \<le> n" using assms by simp
  then have "Suc k * ms \<le> n * ms" by (rule mult_le_mono1)
  then show ?thesis by simp
qed

lemma stores_nonzero:
  assumes "db_ok P s" and "stores P s j b"
  shows "get3 (offset (metadata s ! j)) ORIG_RES \<noteq> 0"
proof
  assume "get3 (offset (metadata s ! j)) ORIG_RES = 0"
  then have "prefix_size P s = 0" using assms(2) by (simp add: stores_def)
  then show False using assms(1) by (simp add: db_ok_def prefix_size_def)
qed

lemma insert_effect:
  assumes ok: "do_insert P b i s = (ERR_NONE, s1)"
    and db: "db_ok P s" and dd: "dedup_ok P s b"
    and lb: "length b < 2 ^ 32" and lc: "length (content (cfile s)) + length b < 2 ^ 63"
  shows "\<exists>k e.
    k < length (metadata s) \<and> is_valid (metadata s ! k) = 0 \<and>
    metadata s1 = (metadata s)[k := e] \<and>
    is_valid e = NON_EMPTY \<and> img_id e = take MAX_IMG_ID i \<and> SHA e = SHA256 P b \<and>
    (\<forall>j. j < length (metadata s) \<and> j \<noteq> k \<and> is_valid (metadata s ! j) \<noteq> 0 \<longrightarrow>
         img_id (metadata s ! j) \<noteq> take MAX_IMG_ID i) \<and>
    db_ok P s1 \<and> max_files (header s1) = max_files (header s) \<and>
    stores P s1 k b \<and>
    (\<forall>j x. j \<noteq> k \<and> stores P s j x \<longrightarrow> stores P s1 j x) \<and>
    length (content (cfile s1)) \<le> length (content (cfile s)) + length b \<and>
    ((\<exists>j. j < length (metadata s) \<and> j \<noteq> k \<and> is_valid (metadata s ! j) \<noteq> 0 \<and>
          SHA (metadata s ! j) = SHA256 P b) \<longrightarrow>
     length (content (cfile s1)) = length (content (cfile s)) \<and>
     (\<exists>j. j < length (metadata s) \<and> j \<noteq> k \<and> is_valid (metadata s ! j) \<noteq> 0 \<and>
          SHA (metadata s ! j) = SHA256 P b \<and>
          offset e = offset (metadata s ! j) \<and> size_md e = size_md (metadata s ! j)))"
proof -
  let ?c = "content (cfile s)"
  let ?hs = "sizeof_header P"
  let ?ms = "sizeof_metadata P"
  have tab: "length (metadata s) = unat (max_files (header s))"
    and io: "io (cfile s) = []" and hs: "0 < ?hs" and ms: "0 < ?ms"
    and pre: "prefix_size P s \<le> length ?c"
    using db by (simp_all add: db_ok_def)
  obtain k h w ofs0 szs0 H M where
    klen: "k < length (metadata s)" and kfree: "is_valid (metadata s ! k) = 0" and b: "b \<noteq> []"
    and ids: "\<forall>j. j < length (metadata s) \<and> j \<noteq> k \<and> is_valid (metadata s ! j) \<noteq> 0 \<longrightarrow>
         img_id (metadata s ! j) \<noteq> take MAX_IMG_ID i"
    and q: "(ofs0 = Arr3 0 0 0 \<and> szs0 = Arr3 0 0 0 \<and>
      (\<forall>j. j < length (metadata s) \<and> j \<noteq> k \<and> is_valid (metadata s ! j) \<noteq> 0 \<longrightarrow>
           SHA (metadata s ! j) \<noteq> SHA256 P b)) \<or>
     (\<exists>j. j < length (metadata s) \<and> j \<noteq> k \<and> is_valid (metadata s ! j) \<noteq> 0 \<and>
          SHA (metadata s ! j) = SHA256 P b \<and>
          ofs0 = offset (metadata s ! j) \<and> szs0 = size_md (metadata s ! j))"
    and lH: "length H = ?hs" and lM: "length M = ?ms"
    and c1: "content (cfile s1) =
      write_at (write_at (if get3 ofs0 ORIG_RES = 0 then ?c @ b else ?c) 0 H)
        (?hs + k * ?ms) M"
    and io1: "io (cfile s1) = []"
    and h1: "header s1 = (header s)\<lparr>nb_files := nb_files (header s) + 1,
                             version := version (header s) + 1\<rparr>"
    and m1: "metadata s1 = (metadata s)[k := new_entry P b i w h
       (if get3 ofs0 ORIG_RES = 0 then set3 ofs0 ORIG_RES (word_of_nat (length ?c)) else ofs0)
       (if get3 ofs0 ORIG_RES = 0 then set3 szs0 ORIG_RES (word_of_nat (length b)) else szs0)]"
    using do_insert_form [OF ok tab io hs ms] by blast
  let ?e = "new_entry P b i w h
       (if get3 ofs0 ORIG_RES = 0 then set3 ofs0 ORIG_RES (word_of_nat (length ?c)) else ofs0)
       (if get3 ofs0 ORIG_RES = 0 then set3 szs0 ORIG_RES (word_of_nat (length b)) else szs0)"
  let ?c1 = "if get3 ofs0 ORIG_RES = 0 then ?c @ b else ?c"
  have ps: "prefix_size P s1 = prefix_size P s" by (simp add: prefix_size_def h1)
  have kin: "?hs + k * ?ms + ?ms \<le> prefix_size P s"
    unfolding prefix_size_def using klen tab by (intro entry_in_prefix) simp
  have pre1: "prefix_size P s \<le> length ?c1" using pre by simp
  have len1: "length (content (cfile s1)) = length ?c1"
    unfolding c1 using lH lM kin pre1 by (rule persist_content(1))
  have drop1: "\<And>q. prefix_size P s \<le> q \<Longrightarrow> drop q (content (cfile s1)) = drop q ?c1"
    unfolding c1 using lH lM kin pre1 by (rule persist_content(2))
  have at1: "metadata s1 ! k = ?e" using klen by (simp add: m1)
  have other1: "\<And>j. j \<noteq> k \<Longrightarrow> metadata s1 ! j = metadata s ! j" by (simp add: m1)
  have keep: "\<forall>j x. j \<noteq> k \<and> stores P s j x \<longrightarrow> stores P s1 j x"
  proof (intro allI impI)
    fix j x assume a: "j \<noteq> k \<and> stores P s j x"
    let ?o = "unat (get3 (offset (metadata s ! j)) ORIG_RES)"
    have st: "prefix_size P s \<le> ?o" "unat (get3 (size_md (metadata s ! j)) ORIG_RES) = length x"
      "?o + length x \<le> length ?c" "take (length x) (drop ?o ?c) = x"
      using a by (simp_all add: stores_def)
    have "take (length x) (drop ?o (content (cfile s1))) = take (length x) (drop ?o ?c1)"
      using drop1 [OF st(1)] by simp
    also have "\<dots> = x" using st(3,4) by simp
    finally have "take (length x) (drop ?o (content (cfile s1))) = x" .
    moreover have "?o + length x \<le> length (content (cfile s1))" using st(3) len1 by simp
    ultimately show "stores P s1 j x"
      using a st(1,2) other1 [of j] by (simp add: stores_def ps)
  qed
  have db1: "db_ok P s1"
    using tab io1 hs ms pre1 len1 by (simp add: db_ok_def m1 h1 ps)
  have mf: "max_files (header s1) = max_files (header s)" by (simp add: h1)
  have le1: "length (content (cfile s1)) \<le> length ?c + length b" using len1 by simp
  have e_fields: "is_valid ?e = NON_EMPTY \<and> img_id ?e = take MAX_IMG_ID i \<and> SHA ?e = SHA256 P b"
    by (simp add: new_entry_def)
  show ?thesis
  proof (cases "get3 ofs0 ORIG_RES = 0")
    case True
    have nomatch: "\<forall>j. j < length (metadata s) \<and> j \<noteq> k \<and> is_valid (metadata s ! j) \<noteq> 0 \<longrightarrow>
           SHA (metadata s ! j) \<noteq> SHA256 P b"
      using q
    proof
      assume "ofs0 = Arr3 0 0 0 \<and> szs0 = Arr3 0 0 0 \<and>
        (\<forall>j. j < length (metadata s) \<and> j \<noteq> k \<and> is_valid (metadata s ! j) \<noteq> 0 \<longrightarrow>
           SHA (metadata s ! j) \<noteq> SHA256 P b)"
      then show ?thesis by blast
    next
      assume "\<exists>j. j < length (metadata s) \<and> j \<noteq> k \<and> is_valid (metadata s ! j) \<noteq> 0 \<and>
          SHA (metadata s ! j) = SHA256 P b \<and>
          ofs0 = offset (metadata s ! j) \<and> szs0 = size_md (metadata s ! j)"
      then obtain j where j: "j < length (metadata s)" "is_valid (metadata s ! j) \<noteq> 0"
        "SHA (metadata s ! j) = SHA256 P b" "ofs0 = offset (metadata s ! j)"
        by blast
      have "stores P s j b" using dd j(1,2,3) by (simp add: dedup_ok_def)
      then have "get3 (offset (metadata s ! j)) ORIG_RES \<noteq> 0" by (rule stores_nonzero [OF db])
      then show ?thesis using True j(4) by simp
    qed
    have uo: "unat (word_of_nat (length ?c) :: 64 word) = length ?c"
      using lc by (simp add: unat_of_nat)
    have us: "unat (word_of_nat (length b) :: 32 word) = length b"
      using lb by (simp add: unat_of_nat)
    have "drop (length ?c) (content (cfile s1)) = drop (length ?c) ?c1"
      using pre by (intro drop1) simp
    then have dr: "drop (length ?c) (content (cfile s1)) = b" using True by simp
    have st_k: "stores P s1 k b"
      using True pre len1 dr
      by (simp add: stores_def at1 ps new_entry_def get3_set3 uo us)
    have fin: "(\<exists>j. j < length (metadata s) \<and> j \<noteq> k \<and> is_valid (metadata s ! j) \<noteq> 0 \<and>
          SHA (metadata s ! j) = SHA256 P b) \<longrightarrow>
     length (content (cfile s1)) = length (content (cfile s)) \<and>
     (\<exists>j. j < length (metadata s) \<and> j \<noteq> k \<and> is_valid (metadata s ! j) \<noteq> 0 \<and>
          SHA (metadata s ! j) = SHA256 P b \<and>
          offset ?e = offset (metadata s ! j) \<and> size_md ?e = size_md (metadata s ! j))"
      using nomatch by blast
    show ?thesis
      by (rule exI [of _ k], rule exI [of _ ?e])
         (use klen kfree m1 e_fields ids db1 mf st_k keep le1 fin in blast)
  next
    case False
    obtain j where j: "j < length (metadata s)" "j \<noteq> k" "is_valid (metadata s ! j) \<noteq> 0"
        "SHA (metadata s ! j) = SHA256 P b" "ofs0 = offset (metadata s ! j)"
        "szs0 = size_md (metadata s ! j)"
      using q False by auto
    have sj: "stores P s j b" using dd j(1,3,4) by (simp add: dedup_ok_def)
    then have "stores P s1 j b" using keep j(2) by blast
    then have st_k: "stores P s1 k b"
      using False j(5,6) other1 [OF j(2)]
      by (simp add: stores_def at1 new_entry_def)
    have len_same: "length (content (cfile s1)) = length ?c" using len1 False by simp
    have copied: "\<exists>j. j < length (metadata s) \<and> j \<noteq> k \<and> is_valid (metadata s ! j) \<noteq> 0 \<and>
          SHA (metadata s ! j) = SHA256 P b \<and>
          offset ?e = offset (metadata s ! j) \<and> size_md ?e = size_md (metadata s ! j)"
      using j False by (intro exI [of _ j]) (simp add: new_entry_def)
    show ?thesis
      by (rule exI [of _ k], rule exI [of _ ?e])
         (use klen kfree m1 e_fields ids db1 mf st_k keep le1 len_same copied in blast)
  qed
qed

subsection \<open>Insert, then read\<close>

lemma read_stored:
  assumes db: "db_ok P s" and k: "k < length (metadata s)"
    and v: "is_valid (metadata s ! k) = NON_EMPTY" and n: "img_id (metadata s ! k) = x"
    and u: "\<forall>j. j < length (metadata s) \<and> j \<noteq> k \<and> is_valid (metadata s ! j) \<noteq> 0 \<longrightarrow>
               img_id (metadata s ! j) \<noteq> x"
    and st: "stores P s k b" and b: "b \<noteq> []"
    and lc: "length (content (cfile s)) < 2 ^ 63"
  shows "\<exists>s'. do_read P x (int ORIG_RES) s = (ERR_NONE, b, s')"
proof -
  have tab: "length (metadata s) = unat (max_files (header s))" and io: "io (cfile s) = []"
    using db by (simp_all add: db_ok_def)
  have sz: "unat (get3 (size_md (metadata s ! k)) ORIG_RES) = length b"
    and fit: "unat (get3 (offset (metadata s ! k)) ORIG_RES) + length b
                \<le> length (content (cfile s))"
    and bytes: "take (length b)
                  (drop (unat (get3 (offset (metadata s ! k)) ORIG_RES)) (content (cfile s))) = b"
    using st by (simp_all add: stores_def)
  have first: "\<forall>j. j < k \<longrightarrow>
                 \<not> (is_valid (metadata s ! j) = NON_EMPTY \<and> img_id (metadata s ! j) = x)"
    using u k by auto
  have "\<exists>s'. do_read P x (int ORIG_RES) s =
           (ERR_NONE,
            take (unat (get3 (size_md (metadata s ! k)) ORIG_RES))
              (drop (unat (get3 (offset (metadata s ! k)) ORIG_RES)) (content (cfile s))),
            s')"
  proof (rule do_read_orig [OF _ v n first io _ _ lc])
    show "k < unat (max_files (header s))" using k tab by simp
    show "0 < unat (get3 (size_md (metadata s ! k)) ORIG_RES)" using sz b by simp
    show "unat (get3 (offset (metadata s ! k)) ORIG_RES)
           + unat (get3 (size_md (metadata s ! k)) ORIG_RES) \<le> length (content (cfile s))"
      using sz fit by simp
  qed
  then show ?thesis unfolding sz bytes .
qed

text \<open>
  C1. On a well-formed database (\<open>db_ok\<close>, \<open>dedup_ok\<close>) that is not full and has a free
  entry, for every image \<open>B\<close> (a non-empty buffer whose resolution can be read, shorter
  than \<open>2 ^ 32\<close> bytes, the file staying below \<open>2 ^ 63\<close> bytes) and every identifier \<open>I\<close>
  of at most 127 bytes that no valid entry holds: \<open>do_insert\<close> succeeds, and reading \<open>I\<close>
  at the original resolution from the database it leaves succeeds and returns exactly \<open>B\<close>.
\<close>

theorem insert_read_roundtrip:
  assumes "db_ok P s" and "dedup_ok P s B"
    and "B \<noteq> []" and "length B < 2 ^ 32" and "fst (get_resolution P B) = ERR_NONE"
    and "length (content (cfile s)) + length B < 2 ^ 63"
    and "nb_files (header s) < max_files (header s)" and "first_free s k"
    and "length I \<le> MAX_IMG_ID"
    and "\<forall>j. j < length (metadata s) \<and> is_valid (metadata s ! j) \<noteq> 0 \<longrightarrow>
             img_id (metadata s ! j) \<noteq> I"
  shows "\<exists>s1 s2. do_insert P B I s = (ERR_NONE, s1) \<and>
                 do_read P I (int ORIG_RES) s1 = (ERR_NONE, B, s2)"
proof -
  have tab: "length (metadata s) = unat (max_files (header s))"
    and io: "io (cfile s) = []" and hs: "0 < sizeof_header P" and ms: "0 < sizeof_metadata P"
    using assms(1) by (simp_all add: db_ok_def)
  have tk: "take MAX_IMG_ID I = I" using assms(9) by simp
  have fresh: "\<forall>j. j < unat (max_files (header s)) \<and> j \<noteq> k \<and> is_valid (metadata s ! j) \<noteq> 0 \<longrightarrow>
             img_id (metadata s ! j) \<noteq> take MAX_IMG_ID I"
    using assms(10) tab unfolding tk by auto
  have "fst (do_insert P B I s) = ERR_NONE"
    using assms(3,7,8,5) fresh io hs ms by (rule do_insert_succeeds)
  then obtain s1 where ins: "do_insert P B I s = (ERR_NONE, s1)"
    by (cases "do_insert P B I s") auto
  obtain k' e where
    k': "k' < length (metadata s)" and m1: "metadata s1 = (metadata s)[k' := e]"
    and e: "is_valid e = NON_EMPTY" "img_id e = take MAX_IMG_ID I"
    and ids: "\<forall>j. j < length (metadata s) \<and> j \<noteq> k' \<and> is_valid (metadata s ! j) \<noteq> 0 \<longrightarrow>
         img_id (metadata s ! j) \<noteq> take MAX_IMG_ID I"
    and db1: "db_ok P s1" and st: "stores P s1 k' B"
    and le: "length (content (cfile s1)) \<le> length (content (cfile s)) + length B"
    using insert_effect [OF ins assms(1,2,4,6)] by blast
  have "\<exists>s2. do_read P I (int ORIG_RES) s1 = (ERR_NONE, B, s2)"
  proof (rule read_stored [OF db1 _ _ _ _ st assms(3)])
    show "k' < length (metadata s1)" using k' by (simp add: m1)
    show "is_valid (metadata s1 ! k') = NON_EMPTY" using k' e(1) by (simp add: m1)
    show "img_id (metadata s1 ! k') = I" using k' e(2) tk by (simp add: m1)
    show "\<forall>j. j < length (metadata s1) \<and> j \<noteq> k' \<and> is_valid (metadata s1 ! j) \<noteq> 0 \<longrightarrow>
               img_id (metadata s1 ! j) \<noteq> I"
      using ids tk by (auto simp: m1)
    show "length (content (cfile s1)) < 2 ^ 63" using le assms(6) by simp
  qed
  then show ?thesis using ins by blast
qed

text \<open>
  An instance: a new image is inserted as \<open>b\<close> into \<open>ex_db_one\<close> and read back.
\<close>

lemma ex_db_one_ok: "db_ok ex_platform ex_db_one"
  by (simp add: db_ok_def prefix_size_def ex_db_one_def ex_defs)

lemma nth_two: "j < 2 \<Longrightarrow> j = 0 \<or> j = Suc 0"
  by auto

lemma ex_db_one_dedup: "dedup_ok ex_platform ex_db_one b"
  unfolding dedup_ok_def
proof (intro allI impI)
  fix j
  assume a: "j < length (metadata ex_db_one) \<and> is_valid (metadata ex_db_one ! j) \<noteq> 0 \<and>
             SHA (metadata ex_db_one ! j) = SHA256 ex_platform b"
  then have "j < 2" by (simp add: ex_db_one_def ex_defs)
  then have "j = 0 \<or> j = Suc 0" by (rule nth_two)
  then have "j = 0" using a by (auto simp: ex_db_one_def ex_defs)
  then have "b = [0xFF, 0xD8]" using a by (simp add: ex_db_one_def ex_defs)
  then show "stores ex_platform ex_db_one j b"
    using \<open>j = 0\<close> by (simp add: stores_def prefix_size_def ex_db_one_def ex_defs)
qed

lemma ex_db_one_free: "first_free ex_db_one 1"
  by (simp add: first_free_def ex_db_one_def ex_defs)

lemma ex_db_one_fresh:
  "\<forall>j. j < length (metadata ex_db_one) \<and> is_valid (metadata ex_db_one ! j) \<noteq> 0 \<longrightarrow>
       img_id (metadata ex_db_one ! j) \<noteq> ''b''"
proof (intro allI impI)
  fix j
  assume a: "j < length (metadata ex_db_one) \<and> is_valid (metadata ex_db_one ! j) \<noteq> 0"
  then have "j < 2" by (simp add: ex_db_one_def ex_defs)
  then have "j = 0 \<or> j = Suc 0" by (rule nth_two)
  then show "img_id (metadata ex_db_one ! j) \<noteq> ''b''"
    using a by (auto simp: ex_db_one_def ex_defs)
qed

theorem insert_read_roundtrip_witness:
  "\<exists>s1 s2. do_insert ex_platform [0xFF, 0xD8, 7] ''b'' ex_db_one = (ERR_NONE, s1) \<and>
            do_read ex_platform ''b'' (int ORIG_RES) s1 = (ERR_NONE, [0xFF, 0xD8, 7], s2)"
proof (rule insert_read_roundtrip [OF ex_db_one_ok ex_db_one_dedup _ _ _ _ _ ex_db_one_free _
         ex_db_one_fresh])
  show "[0xFF, 0xD8, 7] \<noteq> ([] :: bytes)" by simp
  show "length [0xFF, 0xD8, 7 :: byte] < 2 ^ 32" by simp
  show "fst (get_resolution ex_platform [0xFF, 0xD8, 7]) = ERR_NONE"
    by (simp add: ex_platform_def)
  show "length (content (cfile ex_db_one)) + length [0xFF, 0xD8, 7 :: byte] < 2 ^ 63"
    by (simp add: ex_db_one_def ex_defs)
  show "nb_files (header ex_db_one) < max_files (header ex_db_one)"
    by (simp add: ex_db_one_def ex_defs word_less_nat_alt)
  show "length ''b'' \<le> MAX_IMG_ID" by simp
qed

subsection \<open>Inserting the same image twice\<close>






end
